theory Spec2Isabelle
  imports Complex_Main
begin

section \<open>The flood-test scenario of \<^verbatim>\<open>examples/ndn-flood-test.cpp\<close>\<close>

text \<open>
  The scenario is one function, \<^verbatim>\<open>ns3::main\<close>.  It reads its parameters, builds the
  topology, installs the NDN stack and the applications, and then hands the simulator a
  list of timestamped events: connect floods for the initialization period, the removal
  of the producer from the topology at the phase boundary, and connect floods for the
  observation period.  The embedding below follows the function statement by statement.
  What the function does to the simulator framework is recorded as a list of calls in
  program order; what the random generators return is read from a tape.

  Times and rates are \<^verbatim>\<open>double\<close> in the source and real numbers here: the properties
  below depend on their order, sums and products, not on rounding.  The session counts
  are \<^verbatim>\<open>int\<close> in the source and unbounded integers here: a count is only ever
  incremented by one per connect.  The \<^verbatim>\<open>uint32_t\<close> values wrap around as in the
  source.  Log output is left out.
\<close>

subsection \<open>Machine integers and strings\<close>

text \<open>\<^verbatim>\<open>uint32_t\<close> arithmetic: a natural number reduced modulo \<open>2^32\<close>.\<close>

definition u32 :: "nat \<Rightarrow> nat" where
  "u32 x = x mod 4294967296"

text \<open>\<^verbatim>\<open>x - 1\<close> and \<^verbatim>\<open>x--\<close> on a \<^verbatim>\<open>uint32_t\<close>: zero wraps to \<open>2^32 - 1\<close>.\<close>

definition u32_pred :: "nat \<Rightarrow> nat" where
  "u32_pred x = u32 (x + 4294967295)"

text \<open>The conversion of a \<^verbatim>\<open>uint32_t\<close> to \<^verbatim>\<open>int\<close> (the key and value type of the
  \<^verbatim>\<open>std::map<int, int>\<close> tables), two's complement.\<close>

definition s32 :: "nat \<Rightarrow> int" where
  "s32 x = (if u32 x < 2147483648 then int (u32 x) else int (u32 x) - 4294967296)"

definition digit_char :: "nat \<Rightarrow> char" where
  "digit_char d = ''0123456789'' ! d"

function to_string_nat :: "nat \<Rightarrow> string" where
  "to_string_nat k =
     (if k < 10 then [digit_char k] else to_string_nat (k div 10) @ [digit_char (k mod 10)])"
  by pat_completeness auto
termination
  by (relation "measure id") auto

text \<open>\<^verbatim>\<open>std::to_string\<close> of an \<^verbatim>\<open>int\<close>: decimal, with a minus sign when negative.\<close>

definition to_string :: "int \<Rightarrow> string" where
  "to_string i = (if i < 0 then CHR ''-'' # to_string_nat (nat (- i)) else to_string_nat (nat i))"

subsection \<open>Nodes, events and framework calls\<close>

text \<open>
  A node is named by its index in the container \<^verbatim>\<open>nodes\<close>: the infrastructure nodes
  read from the topology file come first (\<open>0 .. n - 1\<close>), then the consumer nodes created
  by \<^verbatim>\<open>consumer_nodes.Create\<close>, then the one producer node.  \<^verbatim>\<open>nodes.Get(k)\<close> is the
  index \<open>k\<close> itself; an index outside the container names no node.
\<close>

type_synonym node = nat

text \<open>The callbacks the scenario can hand to \<^verbatim>\<open>Simulator::Schedule\<close>.  \<open>UpLink\<close> is the
  restoring half of the link control helper the file includes; the scenario never
  schedules it.\<close>

datatype event =
    FloodPacketWithSeq nat nat nat
  | RemoveRoute node string
  | RemoveRouteVia node string node
  | FailLink node node
  | UpLink node node

datatype call =
    ConfigSetDefault string string
  | CmdParse
  | TopologyRead string
  | NodesCreate nat
  | P2PInstall node node
  | StackInstall string string string "node list"
  | StrategyInstallAll string string
  | GlobalRoutingInstallAll
  | AppInstall string string "(string \<times> string) list" node
  | AddOrigins string node
  | CalculateRoutes
  | Schedule real event
  | Stop real
  | Run
  | Destroy

record params =
  num_contents :: int
  connection_rate :: real
  disconnection_rate :: real
  initialization_period_length :: real
  observation_period_length :: real
  zipf_exponent :: real
  cache_size :: int
  topology_file :: string

subsection \<open>The random tape\<close>

text \<open>
  One connect iteration draws three values: \<^verbatim>\<open>rnd_gen()\<close> for the application,
  \<^verbatim>\<open>content_dist.GetNextSeq()\<close> for the content and \<^verbatim>\<open>rng_exp_con(rnd_gen)\<close> for the
  gap to the next connect.
\<close>

record cdraw =
  c_gen :: nat
  c_seq :: nat
  c_gap :: real

text \<open>
  One disconnect iteration draws \<^verbatim>\<open>rnd_gen()\<close> until it hits an application with a
  connected content (\<open>d_picks\<close>, one value per round of the inner do-while), once more
  for the position in that application's table (\<open>d_adv\<close>), and then samples
  \<^verbatim>\<open>rng_exp_dis(rnd_gen)\<close>, whose value depends on the rate the distribution holds
  at that moment (\<open>d_gap\<close>, a function of the rate).
\<close>

record ddraw =
  d_picks :: "nat list"
  d_adv :: nat
  d_gap :: "real \<Rightarrow> real"

subsection \<open>The local state of \<^verbatim>\<open>main\<close>\<close>

text \<open>\<open>connected_content\<close> is the array of \<^verbatim>\<open>std::map<int, int>\<close>, one per consumer
  application; a map is an association list kept in increasing key order, which is the
  order a \<^verbatim>\<open>std::map\<close> iterates in.\<close>

record driver =
  connect_time :: real
  disconnect_time :: real
  num_connected :: nat
  connected_content :: "nat \<Rightarrow> (int \<times> int) list"
  rng_exp_dis :: real
  calls :: "call list"

datatype fault = OutOfDraws | DivByZero

datatype status = Exited int | Returned int | Faulted fault

record outcome =
  status :: status
  stdout :: string
  performed :: "call list"
  final :: "driver option"

text \<open>\<^verbatim>\<open>m[k]++\<close> on a \<^verbatim>\<open>std::map<int, int>\<close>: a missing key is inserted with value 0
  first, at its place in the key order.\<close>

fun map_incr :: "int \<Rightarrow> (int \<times> int) list \<Rightarrow> (int \<times> int) list" where
  "map_incr k [] = [(k, 0 + 1)]"
| "map_incr k ((k', v) # m) =
     (if k = k' then (k', v + 1) # m
      else if k < k' then (k, 0 + 1) # (k', v) # m
      else (k', v) # map_incr k m)"

text \<open>\<^verbatim>\<open>set_new_lambda\<close>: the distribution's parameter is replaced by \<open>val\<close>.\<close>

definition set_new_lambda :: "real \<Rightarrow> real \<Rightarrow> real" where
  "set_new_lambda exp_dis val = val"

subsection \<open>Topology and stack set-up (lines 124 to 246)\<close>

definition prefix :: string where
  "prefix = ''/prefix''"

text \<open>The number of consumer nodes, \<^verbatim>\<open>num_infrastructure_nodes - 1\<close> in \<^verbatim>\<open>uint32_t\<close>.\<close>

definition num_consumers :: "nat \<Rightarrow> nat" where
  "num_consumers n = u32_pred n"

definition infrastructure_nodes :: "nat \<Rightarrow> node list" where
  "infrastructure_nodes n = map (\<lambda>i. i) [0..<n]"

definition consumer_nodes :: "nat \<Rightarrow> node list" where
  "consumer_nodes n = [n..<n + num_consumers n]"

definition producer_node :: "nat \<Rightarrow> node list" where
  "producer_node n = [n + num_consumers n]"

text \<open>The two tables filled by the attach loop; \<^verbatim>\<open>operator[]\<close> on a missing key
  yields 0.  The source stores the \<^verbatim>\<open>uint32_t\<close> indices as \<^verbatim>\<open>int\<close> and reads them
  back as \<^verbatim>\<open>uint32_t\<close>, which gives the same value again, so the tables are kept over
  the \<^verbatim>\<open>uint32_t\<close> values.\<close>

fun attach_app_to_node :: "nat \<Rightarrow> nat list \<Rightarrow> (nat \<rightharpoonup> nat) \<Rightarrow> (nat \<rightharpoonup> nat)" where
  "attach_app_to_node n [] m = m"
| "attach_app_to_node n (i # is) m = attach_app_to_node n is (m(i \<mapsto> u32 (i + n)))"

fun attach_access_to_router :: "nat \<Rightarrow> nat list \<Rightarrow> (nat \<rightharpoonup> nat) \<Rightarrow> (nat \<rightharpoonup> nat)" where
  "attach_access_to_router n [] m = m"
| "attach_access_to_router n (i # is) m = attach_access_to_router n is (m(u32 (i + n) \<mapsto> i))"

definition app_to_node :: "nat \<Rightarrow> nat \<Rightarrow> nat" where
  "app_to_node n i = (case attach_app_to_node n [0..<n] Map.empty i of None \<Rightarrow> 0 | Some v \<Rightarrow> v)"

definition access_to_router :: "nat \<Rightarrow> nat \<Rightarrow> nat" where
  "access_to_router n a =
     (case attach_access_to_router n [0..<n] Map.empty a of None \<Rightarrow> 0 | Some v \<Rightarrow> v)"

definition setup_calls :: "params \<Rightarrow> nat \<Rightarrow> call list" where
  "setup_calls p n =
     [ConfigSetDefault ''ns3::PointToPointNetDevice::DataRate'' ''1Mbps'',
      ConfigSetDefault ''ns3::PointToPointChannel::Delay'' ''2ms'',
      ConfigSetDefault ''ns3::DropTailQueue::MaxPackets'' ''20'',
      CmdParse,
      TopologyRead ''src/ndnSIM/examples/topologies/topo-grid-3x3-producer-attached.txt'',
      NodesCreate (num_consumers n),
      NodesCreate 1]
     @ map (\<lambda>i. P2PInstall i (u32 (i + n))) [0..<n]
     @ [StackInstall ''ns3::ndn::cs::Lru'' ''MaxSize'' (to_string (cache_size p))
          (infrastructure_nodes n),
        StackInstall ''ns3::ndn::cs::Lru'' ''MaxSize'' (to_string (num_contents p))
          (consumer_nodes n),
        StackInstall ''ns3::ndn::cs::Lru'' ''MaxSize'' (to_string (num_contents p))
          (producer_node n),
        StrategyInstallAll ''/'' ''/localhost/nfd/strategy/best-route'',
        GlobalRoutingInstallAll]
     @ map (\<lambda>c. AppInstall ''ns3::ndn::ConsumerSit'' prefix [] c) (consumer_nodes n)
     @ map (\<lambda>c. AppInstall ''ns3::ndn::Producer'' prefix [(''PayloadSize'', ''1024'')] c)
         (producer_node n)
     @ [AddOrigins prefix (n + num_consumers n),
        CalculateRoutes]"

subsection \<open>Initialization period (lines 255 to 277)\<close>

text \<open>The state before the first connect.  \<open>N\<close> is \<^verbatim>\<open>consumer_apps.GetN()\<close>.\<close>

definition init_driver :: "params \<Rightarrow> nat \<Rightarrow> driver" where
  "init_driver p n =
     \<lparr>connect_time = 0.2, disconnect_time = 0.2, num_connected = 0,
      connected_content = (\<lambda>_. []), rng_exp_dis = disconnection_rate p,
      calls = setup_calls p n\<rparr>"

text \<open>The body of the do-while loop.\<close>

definition init_body :: "nat \<Rightarrow> cdraw \<Rightarrow> driver \<Rightarrow> driver" where
  "init_body N d s =
     (let app_indx = u32 (c_gen d mod N);
          content_indx = u32 (c_seq d);
          s1 = s\<lparr>calls := calls s @
                 [Schedule (connect_time s) (FloodPacketWithSeq app_indx content_indx 2)]\<rparr>;
          s2 = s1\<lparr>num_connected := u32 (num_connected s1 + 1)\<rparr>;
          s3 = s2\<lparr>connect_time := connect_time s2 + c_gap d\<rparr>
      in s3\<lparr>connected_content := (connected_content s3)
               (app_indx := map_incr (s32 content_indx) (connected_content s3 app_indx))\<rparr>)"

text \<open>The do-while loop: the body runs, then the condition is tested.  With no
  consumer application the modulus is zero and the first draw faults; with the tape
  used up the loop has not finished.\<close>

fun init_loop ::
  "nat \<Rightarrow> real \<Rightarrow> cdraw list \<Rightarrow> driver \<Rightarrow> (fault \<times> driver) + (cdraw list \<times> driver)" where
  "init_loop N T [] s = Inl (if N = 0 then DivByZero else OutOfDraws, s)"
| "init_loop N T (d # ds) s =
     (if N = 0 then Inl (DivByZero, s)
      else let s' = init_body N d s
           in if connect_time s' < T then init_loop N T ds s' else Inr (ds, s'))"

subsection \<open>Producer disconnection (lines 279 to 287)\<close>

definition producer_disconnect :: "params \<Rightarrow> nat \<Rightarrow> driver \<Rightarrow> driver" where
  "producer_disconnect p n s =
     s\<lparr>calls := calls s
         @ map (\<lambda>indx. Schedule (initialization_period_length p)
                  (RemoveRoute indx (''ndn://'' @ prefix))) [0..<n]
         @ [Schedule (initialization_period_length p)
              (FailLink (u32_pred n) (app_to_node n (u32_pred n)))]\<rparr>"

subsection \<open>Observation period (lines 289 to 347)\<close>

datatype flow = Break | Continue

text \<open>The inner do-while that draws an application until one has a connected
  content.\<close>

fun pick_app :: "nat \<Rightarrow> (nat \<Rightarrow> (int \<times> int) list) \<Rightarrow> nat list \<Rightarrow> nat option" where
  "pick_app N cc [] = None"
| "pick_app N cc (g # gs) =
     (let app_indx = u32 (g mod N) in if cc app_indx = [] then pick_app N cc gs else Some app_indx)"

text \<open>The rate handed to \<^verbatim>\<open>set_new_lambda\<close> (lines 336 to 340).\<close>

definition new_lambda :: "params \<Rightarrow> nat \<Rightarrow> real" where
  "new_lambda p nc = (if 0 = nc then disconnection_rate p * 1 else disconnection_rate p * real nc)"

text \<open>The body of the disconnect loop (lines 309 to 345).\<close>

definition disconnect_body ::
  "nat \<Rightarrow> params \<Rightarrow> nat \<Rightarrow> ddraw \<Rightarrow> driver \<Rightarrow> (fault \<times> driver) + (flow \<times> driver)" where
  "disconnect_body N p n d s =
     (if 0 = num_connected s then Inr (Break, s)
      else if N = 0 then Inl (DivByZero, s)
      else case pick_app N (connected_content s) (d_picks d) of
        None \<Rightarrow> Inl (OutOfDraws, s)
      | Some app_indx \<Rightarrow>
          let m = connected_content s app_indx;
              pos = d_adv d mod length m;
              key = fst (m ! pos);
              second = snd (m ! pos) - 1;
              s1 = (if 0 = second
                    then let access_node = app_to_node n app_indx;
                             router_node = access_to_router n access_node
                         in s\<lparr>calls := calls s @
                                [Schedule (disconnect_time s)
                                   (RemoveRouteVia router_node
                                      (''ndn://'' @ prefix @ to_string key) access_node)],
                              connected_content := (connected_content s)
                                (app_indx := take pos m @ drop (Suc pos) m)\<rparr>
                    else s\<lparr>connected_content := (connected_content s)
                                (app_indx := m[pos := (key, second)])\<rparr>);
              s2 = s1\<lparr>num_connected := u32_pred (num_connected s1)\<rparr>;
              s3 = s2\<lparr>rng_exp_dis := set_new_lambda (rng_exp_dis s2) (new_lambda p (num_connected s2))\<rparr>
          in Inr (Continue, s3\<lparr>disconnect_time := disconnect_time s3 + d_gap d (rng_exp_dis s3)\<rparr>))"

text \<open>The disconnect loop, \<^verbatim>\<open>while(0)\<close>: its condition is the constant 0.\<close>

fun disconnect_loop ::
  "nat \<Rightarrow> params \<Rightarrow> nat \<Rightarrow> ddraw list \<Rightarrow> driver \<Rightarrow> (fault \<times> driver) + (ddraw list \<times> driver)" where
  "disconnect_loop N p n [] s = (if (0::int) \<noteq> 0 then Inl (OutOfDraws, s) else Inr ([], s))"
| "disconnect_loop N p n (d # ds) s =
     (if (0::int) \<noteq> 0
      then (case disconnect_body N p n d s of
              Inl f \<Rightarrow> Inl f
            | Inr (Break, s') \<Rightarrow> Inr (ds, s')
            | Inr (Continue, s') \<Rightarrow> disconnect_loop N p n ds s')
      else Inr (d # ds, s))"

text \<open>The connect half of one observation iteration (lines 298 to 305).\<close>

definition obs_connect :: "nat \<Rightarrow> cdraw \<Rightarrow> driver \<Rightarrow> driver" where
  "obs_connect N d s =
     (let app_indx = u32 (c_gen d mod N);
          content_indx = u32 (c_seq d);
          s1 = s\<lparr>num_connected := u32 (num_connected s + 1)\<rparr>;
          s2 = s1\<lparr>calls := calls s1 @
                 [Schedule (connect_time s1) (FloodPacketWithSeq app_indx content_indx 2)]\<rparr>
      in s2\<lparr>connected_content := (connected_content s2)
               (app_indx := map_incr (s32 content_indx) (connected_content s2 app_indx))\<rparr>)"

fun obs_loop ::
  "nat \<Rightarrow> params \<Rightarrow> nat \<Rightarrow> cdraw list \<Rightarrow> ddraw list \<Rightarrow> driver
     \<Rightarrow> (fault \<times> driver) + ((cdraw list \<times> ddraw list) \<times> driver)" where
  "obs_loop N p n [] dt s =
     (if connect_time s < observation_period_length p + initialization_period_length p
      then Inl (if N = 0 then DivByZero else OutOfDraws, s)
      else Inr (([], dt), s))"
| "obs_loop N p n (d # ds) dt s =
     (if connect_time s < observation_period_length p + initialization_period_length p
      then if N = 0 then Inl (DivByZero, s)
           else let s1 = obs_connect N d s;
                    connect_time_next = connect_time s1 + c_gap d
                in (case disconnect_loop N p n dt s1 of
                      Inl f \<Rightarrow> Inl f
                    | Inr (dt', s2) \<Rightarrow>
                        obs_loop N p n ds dt' (s2\<lparr>connect_time := connect_time_next\<rparr>))
      else Inr ((d # ds, dt), s))"

subsection \<open>\<^verbatim>\<open>main\<close>\<close>

definition invalid_message :: "int \<Rightarrow> string" where
  "invalid_message argc =
     ''Invalid number of parameters: '' @ to_string argc @ '', Expecting 10'' @ [CHR 0x0A]"

definition halted :: "fault \<times> driver \<Rightarrow> outcome" where
  "halted fs = \<lparr>status = Faulted (fst fs), stdout = [], performed = calls (snd fs),
                final = Some (snd fs)\<rparr>"

text \<open>\<open>argc\<close> is the argument count, \<open>p\<close> the values \<^verbatim>\<open>cmd.Parse\<close> leaves in the
  parameter variables, \<open>n\<close> the number of nodes the topology reader returns (a
  \<^verbatim>\<open>uint32_t\<close>), and the two tapes are what the random generators will return.  The
  outcome records how the program ended, what it printed, the calls it made and the
  local state it ended in.\<close>

definition main :: "int \<Rightarrow> params \<Rightarrow> nat \<Rightarrow> cdraw list \<Rightarrow> ddraw list \<Rightarrow> outcome" where
  "main argc p n ct dt =
     (if argc < 10
      then \<lparr>status = Exited 0, stdout = invalid_message argc, performed = [], final = None\<rparr>
      else
        let N = num_consumers n in
        case init_loop N (initialization_period_length p) ct (init_driver p n) of
          Inl fs \<Rightarrow> halted fs
        | Inr (ct1, s1) \<Rightarrow>
            let s2 = producer_disconnect p n s1;
                s3 = s2\<lparr>connect_time := initialization_period_length p + 0.2\<rparr>;
                s4 = s3\<lparr>disconnect_time := connect_time s3\<rparr>
            in (case obs_loop N p n ct1 dt s4 of
                  Inl fs \<Rightarrow> halted fs
                | Inr (_, s5) \<Rightarrow>
                    let s6 = s5\<lparr>calls := calls s5 @
                               [Stop (observation_period_length p + initialization_period_length p),
                                Run, Destroy]\<rparr>
                    in \<lparr>status = Returned 0, stdout = [], performed = calls s6,
                        final = Some s6\<rparr>))"

subsection \<open>Reading the list of calls\<close>

text \<open>The events handed to \<^verbatim>\<open>Simulator::Schedule\<close>, in program order.\<close>

fun scheduled :: "call list \<Rightarrow> (real \<times> event) list" where
  "scheduled [] = []"
| "scheduled (Schedule t e # cs) = (t, e) # scheduled cs"
| "scheduled (c # cs) = scheduled cs"

text \<open>A run of connect floods: fire time, consumer application, content; the hop
  budget is the literal 2 of lines 272 and 304.\<close>

definition floods :: "(real \<times> nat \<times> nat) list \<Rightarrow> call list" where
  "floods fl = map (\<lambda>(t, a, c). Schedule t (FloodPacketWithSeq a c 2)) fl"

definition boundary_calls :: "params \<Rightarrow> nat \<Rightarrow> call list" where
  "boundary_calls p n =
     map (\<lambda>indx. Schedule (initialization_period_length p)
            (RemoveRoute indx (''ndn://'' @ prefix))) [0..<n]
     @ [Schedule (initialization_period_length p)
          (FailLink (u32_pred n) (app_to_node n (u32_pred n)))]"

definition closing_calls :: "params \<Rightarrow> call list" where
  "closing_calls p =
     [Stop (observation_period_length p + initialization_period_length p), Run, Destroy]"

text \<open>The events a run of connect floods hands to the scheduler.\<close>

definition flood_events :: "(real \<times> nat \<times> nat) list \<Rightarrow> (real \<times> event) list" where
  "flood_events fl = map (\<lambda>(t, a, c). (t, FloodPacketWithSeq a c 2)) fl"

text \<open>The state a loop stopped in, whether it finished or faulted.\<close>

fun state_of :: "(fault \<times> driver) + ('a \<times> driver) \<Rightarrow> driver" where
  "state_of (Inl (f, s)) = s"
| "state_of (Inr (x, s)) = s"

text \<open>The total of all session counts held in \<open>connected_content\<close>.\<close>

definition sessions :: "nat \<Rightarrow> (nat \<Rightarrow> (int \<times> int) list) \<Rightarrow> int" where
  "sessions N cc = (\<Sum>a<N. sum_list (map snd (cc a)))"

text \<open>The calls the scenario can make, each written out with the literal arguments
  of the source: the three configuration defaults, the topology file, the store type and
  its one attribute, the strategy, the two applications with their attributes, and the
  five kinds of simulator call.\<close>

definition known_call :: "params \<Rightarrow> call \<Rightarrow> bool" where
  "known_call p x =
     (x = ConfigSetDefault ''ns3::PointToPointNetDevice::DataRate'' ''1Mbps''
      \<or> x = ConfigSetDefault ''ns3::PointToPointChannel::Delay'' ''2ms''
      \<or> x = ConfigSetDefault ''ns3::DropTailQueue::MaxPackets'' ''20''
      \<or> x = CmdParse
      \<or> x = TopologyRead ''src/ndnSIM/examples/topologies/topo-grid-3x3-producer-attached.txt''
      \<or> (\<exists>k. x = NodesCreate k)
      \<or> (\<exists>a b. x = P2PInstall a b)
      \<or> (\<exists>v ns. x = StackInstall ''ns3::ndn::cs::Lru'' ''MaxSize'' v ns)
      \<or> x = StrategyInstallAll ''/'' ''/localhost/nfd/strategy/best-route''
      \<or> x = GlobalRoutingInstallAll
      \<or> (\<exists>k. x = AppInstall ''ns3::ndn::ConsumerSit'' ''/prefix'' [] k)
      \<or> (\<exists>k. x = AppInstall ''ns3::ndn::Producer'' ''/prefix'' [(''PayloadSize'', ''1024'')] k)
      \<or> (\<exists>k. x = AddOrigins ''/prefix'' k)
      \<or> x = CalculateRoutes
      \<or> (\<exists>t a c. x = Schedule t (FloodPacketWithSeq a c 2))
      \<or> (\<exists>k. x = Schedule (initialization_period_length p) (RemoveRoute k ''ndn:///prefix''))
      \<or> (\<exists>a b. x = Schedule (initialization_period_length p) (FailLink a b))
      \<or> x = Stop (observation_period_length p + initialization_period_length p)
      \<or> x = Run
      \<or> x = Destroy)"

fun is_link_event :: "event \<Rightarrow> bool" where
  "is_link_event (FailLink a b) = True"
| "is_link_event (UpLink a b) = True"
| "is_link_event e = False"

fun is_flood :: "event \<Rightarrow> bool" where
  "is_flood (FloodPacketWithSeq a c h) = True"
| "is_flood e = False"

text \<open>The role a node has by the container it belongs to.\<close>

datatype role = Router | Consumer | Producer

definition role_of :: "nat \<Rightarrow> node \<Rightarrow> role option" where
  "role_of n k =
     (if k \<in> set (infrastructure_nodes n) then Some Router
      else if k \<in> set (consumer_nodes n) then Some Consumer
      else if k \<in> set (producer_node n) then Some Producer
      else None)"

section \<open>The event scheduler and the network state\<close>

text \<open>
  The scenario hands its events to the simulator of the framework, whose code is not part
  of the scenario file.  The definitions of this section are written from the
  specification's description of the scheduler and of the routing and link state.
\<close>

datatype sched_error = InvalidTime

type_synonym queue = "(real \<times> event) list"

text \<open>Modelled from the spec: the scheduler's time-ordered priority structure, which
  is missing from the source.  An event is placed behind every queued event whose time
  is not later than its own, so events with equal timestamps stay in insertion order.\<close>

fun enqueue :: "real \<times> event \<Rightarrow> queue \<Rightarrow> queue" where
  "enqueue x [] = [x]"
| "enqueue x (y # q) = (if fst x < fst y then x # y # q else y # enqueue x q)"

text \<open>Modelled from the spec: the per-node routing tables and the link flags, which
  are missing from the source.  A routing entry is (node, name, next hop); a coarse
  entry carries the prefix as its name, a scoped entry the name of one content.  Links
  are up unless listed.\<close>

record world =
  routes :: "(node \<times> string \<times> node) list"
  down_links :: "(node \<times> node) list"

text \<open>Modelled from the spec: the operational flag of a link, which is missing from
  the source.  A link joins two nodes, whichever is named first.\<close>

definition link_down :: "world \<Rightarrow> node \<Rightarrow> node \<Rightarrow> bool" where
  "link_down w a b = ((a, b) \<in> set (down_links w) \<or> (b, a) \<in> set (down_links w))"

text \<open>Modelled from the spec: what firing an event does to routes and links, which is
  missing from the source.  A removal without a next hop drops every entry for the name
  at the node, a removal with a next hop only the entry pointing at that neighbour;
  failing a link sets it down, restoring sets it up; a flood reads routes and links and
  writes neither.\<close>

fun handle :: "event \<Rightarrow> world \<Rightarrow> world" where
  "handle (FloodPacketWithSeq a c h) w = w"
| "handle (RemoveRoute k nm) w =
     w\<lparr>routes := filter (\<lambda>r. \<not> (fst r = k \<and> fst (snd r) = nm)) (routes w)\<rparr>"
| "handle (RemoveRouteVia k nm h) w =
     w\<lparr>routes := filter (\<lambda>r. r \<noteq> (k, nm, h)) (routes w)\<rparr>"
| "handle (FailLink a b) w =
     (if link_down w a b then w else w\<lparr>down_links := (a, b) # down_links w\<rparr>)"
| "handle (UpLink a b) w =
     w\<lparr>down_links := filter (\<lambda>l. l \<noteq> (a, b) \<and> l \<noteq> (b, a)) (down_links w)\<rparr>"

text \<open>Modelled from the spec: a flood is forwarded from \<open>a\<close> to \<open>b\<close> under the
  name \<open>nm\<close> only across an up link whose far end the routing table of \<open>a\<close> names.\<close>

definition forwardable :: "world \<Rightarrow> node \<Rightarrow> node \<Rightarrow> string \<Rightarrow> bool" where
  "forwardable w a b nm = (\<not> link_down w a b \<and> (a, nm, b) \<in> set (routes w))"

text \<open>Modelled from the spec: \<open>run_until\<close>, which is missing from the source.  The
  earliest event is extracted and its handler runs to completion, until no event with a
  time up to the stop time remains.  The result lists each fired event with its time and
  the state it found.\<close>

fun run_until :: "real \<Rightarrow> queue \<Rightarrow> world \<Rightarrow> (real \<times> event \<times> world) list" where
  "run_until stop [] w = []"
| "run_until stop ((t, e) # q) w =
     (if t \<le> stop then (t, e, w) # run_until stop q (handle e w) else [])"

text \<open>Modelled from the spec: running without a stop time, which is missing from the
  source; every queued event fires.\<close>

fun run_all :: "queue \<Rightarrow> world \<Rightarrow> (real \<times> event \<times> world) list" where
  "run_all [] w = []"
| "run_all ((t, e) # q) w = (t, e, w) # run_all q (handle e w)"

text \<open>Modelled from the spec: the state of the simulator, which is missing from the
  source: the queue, the stop time if one is set, the network state and the trace of the
  run.\<close>

record sim =
  sim_queue :: queue
  sim_stop :: "real option"
  sim_world :: world
  sim_trace :: "(real \<times> event \<times> world) list"

text \<open>Modelled from the spec: the simulator's entry points as the scenario calls them,
  all before the clock starts.  Scheduling at a negative time is \<open>InvalidTime\<close>.\<close>

fun sim_call :: "call \<Rightarrow> sim \<Rightarrow> sched_error + sim" where
  "sim_call (Schedule t e) s =
     (if t < 0 then Inl InvalidTime else Inr (s\<lparr>sim_queue := enqueue (t, e) (sim_queue s)\<rparr>))"
| "sim_call (Stop t) s =
     (if t < 0 then Inl InvalidTime else Inr (s\<lparr>sim_stop := Some t\<rparr>))"
| "sim_call Run s =
     (case sim_stop s of
        None \<Rightarrow> Inr (s\<lparr>sim_trace := run_all (sim_queue s) (sim_world s)\<rparr>)
      | Some stop \<Rightarrow> Inr (s\<lparr>sim_trace := run_until stop (sim_queue s) (sim_world s)\<rparr>))"
| "sim_call c s = Inr s"

text \<open>Modelled from the spec: the calls of a program taken in order, the first error
  ending the run (fail-fast), and the trace a program's calls produce from an initial
  network state; both are missing from the source.\<close>

fun sim_calls :: "call list \<Rightarrow> sim \<Rightarrow> sched_error + sim" where
  "sim_calls [] s = Inr s"
| "sim_calls (c # cs) s = (case sim_call c s of Inl e \<Rightarrow> Inl e | Inr s' \<Rightarrow> sim_calls cs s')"

definition simulate :: "world \<Rightarrow> call list \<Rightarrow> sched_error + (real \<times> event \<times> world) list" where
  "simulate w0 cs =
     (case sim_calls cs \<lparr>sim_queue = [], sim_stop = None, sim_world = w0, sim_trace = []\<rparr> of
        Inl e \<Rightarrow> Inl e
      | Inr s \<Rightarrow> Inr (sim_trace s))"

text \<open>The events of the phase boundary, in the order \<^verbatim>\<open>main\<close> schedules them.\<close>

definition boundary_events :: "params \<Rightarrow> nat \<Rightarrow> (real \<times> event) list" where
  "boundary_events p n =
     map (\<lambda>indx. (initialization_period_length p, RemoveRoute indx (''ndn://'' @ prefix)))
       [0..<n]
     @ [(initialization_period_length p, FailLink (u32_pred n) (app_to_node n (u32_pred n)))]"

text \<open>Scheduling a list of events one after the other, and firing a list of events one
  after the other.\<close>

definition enqueue_all :: "(real \<times> event) list \<Rightarrow> queue \<Rightarrow> queue" where
  "enqueue_all xs q = foldl (\<lambda>q x. enqueue x q) q xs"

definition apply_events :: "(real \<times> event) list \<Rightarrow> world \<Rightarrow> world" where
  "apply_events xs w = foldl (\<lambda>w x. handle (snd x) w) w xs"

text \<open>The trace of a run without the states: fire time and event.\<close>

definition fired :: "(real \<times> event \<times> world) list \<Rightarrow> (real \<times> event) list" where
  "fired tr = map (\<lambda>x. (fst x, fst (snd x))) tr"

section \<open>The content store\<close>

text \<open>
  The scenario only configures the content stores; the store itself belongs to the
  framework.  The definitions of this section are written from the specification's
  description of the store.
\<close>

datatype cs_error = CapacityViolation

text \<open>Modelled from the spec: the bounded least-recently-used content store, which is
  missing from the source.  \<open>entries\<close> holds the content ids, most recently used
  first.\<close>

record content_store =
  capacity :: nat
  entries :: "nat list"

text \<open>Modelled from the spec: construction with a capacity, which is missing from the
  source; a zero or negative capacity is a \<open>CapacityViolation\<close>.\<close>

definition new_store :: "int \<Rightarrow> cs_error + content_store" where
  "new_store k =
     (if k \<le> 0 then Inl CapacityViolation else Inr \<lparr>capacity = nat k, entries = []\<rparr>)"

text \<open>Modelled from the spec: \<open>get\<close>, which is missing from the source.  A hit
  promotes the entry to most recently used; a miss returns nothing and changes
  nothing.\<close>

definition cs_get :: "nat \<Rightarrow> content_store \<Rightarrow> bool \<times> content_store" where
  "cs_get c s =
     (if c \<in> set (entries s) then (True, s\<lparr>entries := c # removeAll c (entries s)\<rparr>)
      else (False, s))"

text \<open>Modelled from the spec: \<open>put\<close>, which is missing from the source.  The entry
  is inserted or refreshed as most recently used; if the store is at capacity and the id
  is new, the least recently used entry is evicted first.  The first component is the
  evicted id, if any.\<close>

definition cs_put :: "nat \<Rightarrow> content_store \<Rightarrow> nat option \<times> content_store" where
  "cs_put c s =
     (if c \<in> set (entries s) then (None, s\<lparr>entries := c # removeAll c (entries s)\<rparr>)
      else if capacity s \<le> length (entries s) \<and> entries s \<noteq> []
           then (Some (last (entries s)), s\<lparr>entries := c # butlast (entries s)\<rparr>)
           else (None, s\<lparr>entries := c # entries s\<rparr>))"

text \<open>Modelled from the spec: sequences of \<open>get\<close> and \<open>put\<close> applied to a store,
  which are missing from the source.\<close>

datatype cs_op = Get nat | Put nat

fun op_id :: "cs_op \<Rightarrow> nat" where
  "op_id (Get c) = c"
| "op_id (Put c) = c"

fun cs_step :: "content_store \<Rightarrow> cs_op \<Rightarrow> content_store" where
  "cs_step s (Get c) = snd (cs_get c s)"
| "cs_step s (Put c) = snd (cs_put c s)"

definition cs_run :: "cs_op list \<Rightarrow> content_store \<Rightarrow> content_store" where
  "cs_run ops s = foldl cs_step s ops"

text \<open>The position, counted from 1, of the last operation of \<open>ops\<close> that names the
  id \<open>c\<close>; 0 if none does.\<close>

definition last_touch :: "nat \<Rightarrow> cs_op list \<Rightarrow> nat" where
  "last_touch c ops = length (dropWhile (\<lambda>x. op_id x \<noteq> c) (rev ops))"

text \<open>The entries are in the order of their last use, the most recent first, and each
  has been named by some operation.\<close>

definition lru_ordered :: "cs_op list \<Rightarrow> content_store \<Rightarrow> bool" where
  "lru_ordered ops s =
     (distinct (entries s)
      \<and> sorted_wrt (\<lambda>a b. last_touch b ops < last_touch a ops) (entries s)
      \<and> list_all (\<lambda>c. 0 < last_touch c ops) (entries s))"

section \<open>Example inputs\<close>

text \<open>A run with three infrastructure nodes, an initialization period and an
  observation period of one second each, and four connect draws.\<close>

definition example_params :: params where
  "example_params =
     \<lparr>num_contents = 100, connection_rate = 1, disconnection_rate = 1 / 2,
      initialization_period_length = 1, observation_period_length = 1,
      zipf_exponent = 1, cache_size = 5, topology_file = ''topo''\<rparr>"

definition example_tape :: "cdraw list" where
  "example_tape =
     [\<lparr>c_gen = 7, c_seq = 3, c_gap = 1 / 2\<rparr>, \<lparr>c_gen = 1, c_seq = 4, c_gap = 1 / 2\<rparr>,
      \<lparr>c_gen = 2, c_seq = 3, c_gap = 3 / 5\<rparr>, \<lparr>c_gen = 5, c_seq = 9, c_gap = 7 / 10\<rparr>]"

text \<open>A state of the driver in which application 0 holds one session and application 1
  two sessions of one content.\<close>

definition example_driver :: driver where
  "example_driver =
     \<lparr>connect_time = 6 / 5, disconnect_time = 13 / 10, num_connected = 3,
      connected_content = (\<lambda>_. [])(0 := [(3, 1)], 1 := [(4, 2)]),
      rng_exp_dis = 1 / 2, calls = []\<rparr>"

definition example_world :: world where
  "example_world =
     \<lparr>routes = [(0, ''ndn:///prefix'', 1), (1, ''ndn:///prefix'', 2), (2, ''ndn:///prefix'', 5),
                (1, ''ndn:///prefix/4'', 4)],
      down_links = []\<rparr>"

text \<open>An initialization period shorter than the first connect time.\<close>

definition short_params :: params where
  "short_params = example_params\<lparr>initialization_period_length := 1 / 10\<rparr>"

text \<open>Two disconnect draws, for a topology of four infrastructure nodes and three
  consumer applications, and the states the disconnect body leaves.  The first draw
  meets the empty application 2 before it picks application 0.\<close>

definition last_session_draw :: ddraw where
  "last_session_draw = \<lparr>d_picks = [2, 0], d_adv = 5, d_gap = (\<lambda>l. 1 / l)\<rparr>"

definition shared_session_draw :: ddraw where
  "shared_session_draw = \<lparr>d_picks = [1], d_adv = 5, d_gap = (\<lambda>l. 1 / l)\<rparr>"

definition after_last_session :: driver where
  "after_last_session =
     example_driver
       \<lparr>calls := [Schedule (13 / 10) (RemoveRouteVia 0 ''ndn:///prefix3'' 4)],
        connected_content := (connected_content example_driver)(0 := []),
        num_connected := 2, rng_exp_dis := 1, disconnect_time := 23 / 10\<rparr>"

definition after_shared_session :: driver where
  "after_shared_session =
     example_driver
       \<lparr>connected_content := (connected_content example_driver)(1 := [(4, 1)]),
        num_connected := 2, rng_exp_dis := 1, disconnect_time := 23 / 10\<rparr>"

definition example_store :: content_store where
  "example_store = \<lparr>capacity = 2, entries = []\<rparr>"

text \<open>The events of the example run in firing order, and the states they find.\<close>

definition example_events :: "(real \<times> event) list" where
  "example_events =
     [(1 / 5, FloodPacketWithSeq 1 3 2), (7 / 10, FloodPacketWithSeq 1 4 2),
      (1, RemoveRoute 0 ''ndn:///prefix''), (1, RemoveRoute 1 ''ndn:///prefix''),
      (1, RemoveRoute 2 ''ndn:///prefix''), (1, FailLink 2 5),
      (6 / 5, FloodPacketWithSeq 0 3 2), (9 / 5, FloodPacketWithSeq 1 9 2)]"

definition example_world_after :: world where
  "example_world_after = \<lparr>routes = [(1, ''ndn:///prefix/4'', 4)], down_links = [(2, 5)]\<rparr>"

definition example_trace :: "(real \<times> event \<times> world) list" where
  "example_trace =
     [(1 / 5, FloodPacketWithSeq 1 3 2, example_world),
      (7 / 10, FloodPacketWithSeq 1 4 2, example_world),
      (1, RemoveRoute 0 ''ndn:///prefix'', example_world),
      (1, RemoveRoute 1 ''ndn:///prefix'',
         example_world\<lparr>routes := [(1, ''ndn:///prefix'', 2), (2, ''ndn:///prefix'', 5),
                                    (1, ''ndn:///prefix/4'', 4)]\<rparr>),
      (1, RemoveRoute 2 ''ndn:///prefix'',
         example_world\<lparr>routes := [(2, ''ndn:///prefix'', 5), (1, ''ndn:///prefix/4'', 4)]\<rparr>),
      (1, FailLink 2 5, example_world\<lparr>routes := [(1, ''ndn:///prefix/4'', 4)]\<rparr>),
      (6 / 5, FloodPacketWithSeq 0 3 2, example_world_after),
      (9 / 5, FloodPacketWithSeq 1 9 2, example_world_after)]"

section \<open>The shape of the schedule\<close>

lemma scheduled_append: "scheduled (a @ b) = scheduled a @ scheduled b"
  by (induction a rule: scheduled.induct) auto

lemma scheduled_floods: "scheduled (floods fl) = map (\<lambda>(t, a, c). (t, FloodPacketWithSeq a c 2)) fl"
  by (induction fl) (auto simp: floods_def)

lemma floods_append: "floods (a @ b) = floods a @ floods b"
  by (simp add: floods_def)

lemma u32_idem: "u32 (u32 x + y) = u32 (x + y)"
  by (simp add: u32_def mod_add_left_eq)

lemma u32_small: "x < 4294967296 \<Longrightarrow> u32 x = x"
  by (simp add: u32_def)

lemma sum_list_map_incr: "sum_list (map snd (map_incr k m)) = sum_list (map snd m) + 1"
  by (induction m) auto

lemma sessions_incr:
  assumes "a < N"
  shows "sessions N (cc(a := map_incr k (cc a))) = sessions N cc + 1"
proof -
  define f where "f = (\<lambda>x. sum_list (map snd (cc x)))"
  define g where "g = (\<lambda>x. sum_list (map snd ((cc(a := map_incr k (cc a))) x)))"
  have fin: "finite {..<N}" and mem: "a \<in> {..<N}" using assms by auto
  have 1: "sum g {..<N} = g a + sum g ({..<N} - {a})"
    using fin mem by (rule sum.remove)
  have 2: "sum f {..<N} = f a + sum f ({..<N} - {a})"
    using fin mem by (rule sum.remove)
  have 3: "sum g ({..<N} - {a}) = sum f ({..<N} - {a})"
    by (rule sum.cong) (auto simp: f_def g_def)
  have 4: "g a = f a + 1"
    by (simp add: f_def g_def sum_list_map_incr)
  have "sum g {..<N} = sum f {..<N} + 1"
    using 1 2 3 4 by linarith
  then show ?thesis by (simp add: sessions_def f_def g_def)
qed

lemma init_body_facts:
  assumes "N \<noteq> 0" "N \<le> 4294967296"
  shows "calls (init_body N d s) = calls s @ floods [(connect_time s, c_gen d mod N, u32 (c_seq d))]"
    and "rng_exp_dis (init_body N d s) = rng_exp_dis s"
    and "disconnect_time (init_body N d s) = disconnect_time s"
    and "num_connected (init_body N d s) = u32 (num_connected s + 1)"
    and "sessions N (connected_content (init_body N d s)) = sessions N (connected_content s) + 1"
    and "connect_time (init_body N d s) = connect_time s + c_gap d"
proof -
  have lt: "c_gen d mod N < N" using assms by simp
  then have "c_gen d mod N < 4294967296" using assms by linarith
  then have sm: "u32 (c_gen d mod N) = c_gen d mod N" by (rule u32_small)
  show "calls (init_body N d s) = calls s @ floods [(connect_time s, c_gen d mod N, u32 (c_seq d))]"
    by (simp add: init_body_def Let_def sm floods_def)
  show "rng_exp_dis (init_body N d s) = rng_exp_dis s"
    by (simp add: init_body_def Let_def)
  show "disconnect_time (init_body N d s) = disconnect_time s"
    by (simp add: init_body_def Let_def)
  show "num_connected (init_body N d s) = u32 (num_connected s + 1)"
    by (simp add: init_body_def Let_def)
  show "sessions N (connected_content (init_body N d s)) = sessions N (connected_content s) + 1"
    using sessions_incr[OF lt] by (simp add: init_body_def Let_def sm)
  show "connect_time (init_body N d s) = connect_time s + c_gap d"
    by (simp add: init_body_def Let_def)
qed

lemma init_loop_shape:
  assumes "N \<le> 4294967296" "num_connected s < 4294967296"
  shows "\<exists>fl. calls (state_of (init_loop N T ct s)) = calls s @ floods fl
        \<and> rng_exp_dis (state_of (init_loop N T ct s)) = rng_exp_dis s
        \<and> disconnect_time (state_of (init_loop N T ct s)) = disconnect_time s
        \<and> num_connected (state_of (init_loop N T ct s)) = u32 (num_connected s + length fl)
        \<and> sessions N (connected_content (state_of (init_loop N T ct s)))
            = sessions N (connected_content s) + int (length fl)"
  using assms(2)
proof (induction ct arbitrary: s)
  case Nil
  then show ?case by (intro exI[of _ "[]"]) (simp add: floods_def u32_small)
next
  case (Cons d ct)
  show ?case
  proof (cases "N = 0")
    case True
    with Cons.prems show ?thesis by (intro exI[of _ "[]"]) (simp add: floods_def u32_small)
  next
    case N: False
    let ?s' = "init_body N d s"
    note bf = init_body_facts[OF N assms(1), of d s]
    have lt: "num_connected ?s' < 4294967296" by (simp add: bf u32_def)
    show ?thesis
    proof (cases "connect_time ?s' < T")
      case True
      from Cons.IH[OF lt] obtain fl where fl:
        "calls (state_of (init_loop N T ct ?s')) = calls ?s' @ floods fl"
        "rng_exp_dis (state_of (init_loop N T ct ?s')) = rng_exp_dis ?s'"
        "disconnect_time (state_of (init_loop N T ct ?s')) = disconnect_time ?s'"
        "num_connected (state_of (init_loop N T ct ?s')) = u32 (num_connected ?s' + length fl)"
        "sessions N (connected_content (state_of (init_loop N T ct ?s')))
            = sessions N (connected_content ?s') + int (length fl)"
        by blast
      have eq: "init_loop N T (d # ct) s = init_loop N T ct ?s'"
        using N True by (simp add: Let_def)
      show ?thesis
        unfolding eq
        by (rule exI[of _ "(connect_time s, c_gen d mod N, u32 (c_seq d)) # fl"])
           (simp add: fl bf floods_def u32_idem)
    next
      case False
      have eq: "init_loop N T (d # ct) s = Inr (ct, ?s')"
        using N False by (simp add: Let_def)
      show ?thesis
        unfolding eq
        by (rule exI[of _ "[(connect_time s, c_gen d mod N, u32 (c_seq d))]"])
           (simp add: bf floods_def)
    qed
  qed
qed


lemma disconnect_loop_skip: "disconnect_loop N p n dt s = Inr (dt, s)"
  by (cases dt) simp_all

lemma obs_connect_facts:
  assumes "N \<noteq> 0" "N \<le> 4294967296"
  shows "calls (obs_connect N d s) = calls s @ floods [(connect_time s, c_gen d mod N, u32 (c_seq d))]"
    and "rng_exp_dis (obs_connect N d s) = rng_exp_dis s"
    and "disconnect_time (obs_connect N d s) = disconnect_time s"
    and "num_connected (obs_connect N d s) = u32 (num_connected s + 1)"
    and "sessions N (connected_content (obs_connect N d s)) = sessions N (connected_content s) + 1"
    and "connect_time (obs_connect N d s) = connect_time s"
proof -
  have lt: "c_gen d mod N < N" using assms by simp
  then have "c_gen d mod N < 4294967296" using assms by linarith
  then have sm: "u32 (c_gen d mod N) = c_gen d mod N" by (rule u32_small)
  show "calls (obs_connect N d s) = calls s @ floods [(connect_time s, c_gen d mod N, u32 (c_seq d))]"
    by (simp add: obs_connect_def Let_def sm floods_def)
  show "rng_exp_dis (obs_connect N d s) = rng_exp_dis s"
    by (simp add: obs_connect_def Let_def)
  show "disconnect_time (obs_connect N d s) = disconnect_time s"
    by (simp add: obs_connect_def Let_def)
  show "num_connected (obs_connect N d s) = u32 (num_connected s + 1)"
    by (simp add: obs_connect_def Let_def)
  show "sessions N (connected_content (obs_connect N d s)) = sessions N (connected_content s) + 1"
    using sessions_incr[OF lt] by (simp add: obs_connect_def Let_def sm)
  show "connect_time (obs_connect N d s) = connect_time s"
    by (simp add: obs_connect_def Let_def)
qed

lemma obs_loop_shape:
  assumes "N \<le> 4294967296" "num_connected s < 4294967296"
  shows "\<exists>fl. calls (state_of (obs_loop N p n ct dt s)) = calls s @ floods fl
        \<and> rng_exp_dis (state_of (obs_loop N p n ct dt s)) = rng_exp_dis s
        \<and> disconnect_time (state_of (obs_loop N p n ct dt s)) = disconnect_time s
        \<and> num_connected (state_of (obs_loop N p n ct dt s)) = u32 (num_connected s + length fl)
        \<and> sessions N (connected_content (state_of (obs_loop N p n ct dt s)))
            = sessions N (connected_content s) + int (length fl)"
  using assms(2)
proof (induction ct arbitrary: s)
  case Nil
  then show ?case by (intro exI[of _ "[]"]) (simp add: floods_def u32_small)
next
  case (Cons d ct)
  let ?go = "connect_time s < observation_period_length p + initialization_period_length p"
  show ?case
  proof (cases "?go \<and> N \<noteq> 0")
    case False
    with Cons.prems show ?thesis by (intro exI[of _ "[]"]) (auto simp add: floods_def u32_small)
  next
    case True
    then have N: "N \<noteq> 0" and go: ?go by auto
    let ?s1 = "obs_connect N d s"
    let ?s' = "?s1\<lparr>connect_time := connect_time ?s1 + c_gap d\<rparr>"
    note bf = obs_connect_facts[OF N assms(1), of d s]
    have lt: "num_connected ?s' < 4294967296" by (simp add: bf u32_def)
    from Cons.IH[OF lt] obtain fl where fl:
      "calls (state_of (obs_loop N p n ct dt ?s')) = calls ?s' @ floods fl"
      "rng_exp_dis (state_of (obs_loop N p n ct dt ?s')) = rng_exp_dis ?s'"
      "disconnect_time (state_of (obs_loop N p n ct dt ?s')) = disconnect_time ?s'"
      "num_connected (state_of (obs_loop N p n ct dt ?s')) = u32 (num_connected ?s' + length fl)"
      "sessions N (connected_content (state_of (obs_loop N p n ct dt ?s')))
          = sessions N (connected_content ?s') + int (length fl)"
      by blast
    have eq: "obs_loop N p n (d # ct) dt s = obs_loop N p n ct dt ?s'"
      using N go by (simp add: Let_def disconnect_loop_skip)
    show ?thesis
      unfolding eq
      apply (rule exI[of _ "(connect_time s, c_gen d mod N, u32 (c_seq d)) # fl"])
      using fl by (simp add: bf floods_def u32_idem)
  qed
qed

lemma num_consumers_le: "num_consumers n \<le> 4294967296"
  by (simp add: num_consumers_def u32_pred_def u32_def less_imp_le)

lemma sessions_empty: "sessions N (\<lambda>_. []) = 0"
  by (simp add: sessions_def)

lemma main_shape:
  assumes "\<not> argc < 10"
  shows "\<exists>fl1 fl2 s. final (main argc p n ct dt) = Some s
      \<and> performed (main argc p n ct dt) = calls s
      \<and> rng_exp_dis s = disconnection_rate p
      \<and> num_connected s = u32 (length fl1 + length fl2)
      \<and> sessions (num_consumers n) (connected_content s) = int (length fl1 + length fl2)
      \<and> ((status (main argc p n ct dt) = Returned 0
           \<and> calls s = setup_calls p n @ floods fl1 @ boundary_calls p n @ floods fl2 @ closing_calls p)
         \<or> ((\<exists>f. status (main argc p n ct dt) = Faulted f)
           \<and> calls s = setup_calls p n @ floods fl1 @ boundary_calls p n @ floods fl2)
         \<or> ((\<exists>f. status (main argc p n ct dt) = Faulted f) \<and> fl2 = []
           \<and> calls s = setup_calls p n @ floods fl1))"
proof -
  let ?N = "num_consumers n"
  let ?T = "initialization_period_length p"
  let ?s0 = "init_driver p n"
  have n0: "num_connected ?s0 < 4294967296" by (simp add: init_driver_def)
  from init_loop_shape[OF num_consumers_le n0, of n ?T ct] obtain fl1 where fl1:
    "calls (state_of (init_loop ?N ?T ct ?s0)) = calls ?s0 @ floods fl1"
    "rng_exp_dis (state_of (init_loop ?N ?T ct ?s0)) = rng_exp_dis ?s0"
    "num_connected (state_of (init_loop ?N ?T ct ?s0)) = u32 (num_connected ?s0 + length fl1)"
    "sessions ?N (connected_content (state_of (init_loop ?N ?T ct ?s0)))
        = sessions ?N (connected_content ?s0) + int (length fl1)"
    by blast
  show ?thesis
  proof (cases "init_loop ?N ?T ct ?s0")
    case (Inl fs)
    obtain f s where fs: "fs = (f, s)" by (cases fs)
    have m: "main argc p n ct dt = halted (f, s)"
      using assms Inl fs by (simp add: main_def Let_def)
    show ?thesis
      apply (rule exI[of _ fl1], rule exI[of _ "[]"], rule exI[of _ s])
      using fl1 unfolding Inl fs m
      by (simp add: halted_def init_driver_def sessions_empty)
  next
    case (Inr r)
    obtain ct1 s1 where r: "r = (ct1, s1)" by (cases r)
    let ?s4 = "(producer_disconnect p n s1)\<lparr>connect_time := ?T + 0.2, disconnect_time := ?T + 0.2\<rparr>"
    have n4: "num_connected ?s4 < 4294967296"
      using fl1 unfolding Inr r by (simp add: producer_disconnect_def u32_def)
    from obs_loop_shape[OF num_consumers_le n4, of n p n ct1 dt] obtain fl2 where fl2:
      "calls (state_of (obs_loop ?N p n ct1 dt ?s4)) = calls ?s4 @ floods fl2"
      "rng_exp_dis (state_of (obs_loop ?N p n ct1 dt ?s4)) = rng_exp_dis ?s4"
      "num_connected (state_of (obs_loop ?N p n ct1 dt ?s4)) = u32 (num_connected ?s4 + length fl2)"
      "sessions ?N (connected_content (state_of (obs_loop ?N p n ct1 dt ?s4)))
        = sessions ?N (connected_content ?s4) + int (length fl2)"
      by blast
    have s4: "calls ?s4 = setup_calls p n @ floods fl1 @ boundary_calls p n"
      "rng_exp_dis ?s4 = disconnection_rate p"
      "num_connected ?s4 = u32 (length fl1)"
      "sessions ?N (connected_content ?s4) = int (length fl1)"
      using fl1 unfolding Inr r
      by (simp_all add: producer_disconnect_def boundary_calls_def init_driver_def sessions_empty)
    show ?thesis
    proof (cases "obs_loop ?N p n ct1 dt ?s4")
      case (Inl fs)
      obtain f s where fs: "fs = (f, s)" by (cases fs)
      have m: "main argc p n ct dt = halted (f, s)"
        using assms Inr r Inl fs by (simp add: main_def Let_def)
      show ?thesis
        apply (rule exI[of _ fl1], rule exI[of _ fl2], rule exI[of _ s])
        using fl2 s4 unfolding Inl fs m
        by (simp add: halted_def u32_idem)
    next
      case Inr2: (Inr r2)
      obtain tp s5 where r2: "r2 = (tp, s5)" by (cases r2)
      let ?s6 = "s5\<lparr>calls := calls s5 @ closing_calls p\<rparr>"
      have m: "main argc p n ct dt = \<lparr>status = Returned 0, stdout = [], performed = calls ?s6, final = Some ?s6\<rparr>"
        using assms Inr r Inr2 r2 by (simp add: main_def Let_def closing_calls_def)
      show ?thesis
        apply (rule exI[of _ fl1], rule exI[of _ fl2], rule exI[of _ ?s6])
        using fl2 s4 unfolding Inr2 r2 m
        by (simp add: u32_idem)
    qed
  qed
qed

lemma scheduled_set: "(t, e) \<in> set (scheduled cs) \<longleftrightarrow> Schedule t e \<in> set cs"
  by (induction cs rule: scheduled.induct) auto

lemma scheduled_map_P2P: "scheduled (map (\<lambda>i. P2PInstall i (f i)) xs) = []"
  by (induction xs) auto

lemma scheduled_map_App: "scheduled (map (\<lambda>c. AppInstall a b l c) xs) = []"
  by (induction xs) auto

lemma scheduled_setup: "scheduled (setup_calls p n) = []"
  by (simp add: setup_calls_def scheduled_append scheduled_map_P2P scheduled_map_App)

lemma scheduled_map_Schedule: "scheduled (map (\<lambda>i. Schedule (f i) (g i)) xs) = map (\<lambda>i. (f i, g i)) xs"
  by (induction xs) auto

lemma scheduled_boundary: "scheduled (boundary_calls p n) = boundary_events p n"
  by (simp add: boundary_calls_def boundary_events_def scheduled_append scheduled_map_Schedule)

lemma scheduled_closing: "scheduled (closing_calls p) = []"
  by (simp add: closing_calls_def)

lemma main_scheduled:
  assumes "\<not> argc < 10"
  shows "\<exists>fl1 fl2. 
      (scheduled (performed (main argc p n ct dt)) = flood_events fl1 @ boundary_events p n @ flood_events fl2
         \<and> (status (main argc p n ct dt) = Returned 0 \<or> (\<exists>f. status (main argc p n ct dt) = Faulted f)))
      \<or> (scheduled (performed (main argc p n ct dt)) = flood_events fl1
         \<and> (\<exists>f. status (main argc p n ct dt) = Faulted f))"
proof -
  from main_shape[OF assms, of p n ct dt] obtain fl1 fl2 s where all:
    "final (main argc p n ct dt) = Some s
      \<and> performed (main argc p n ct dt) = calls s
      \<and> rng_exp_dis s = disconnection_rate p
      \<and> num_connected s = u32 (length fl1 + length fl2)
      \<and> sessions (num_consumers n) (connected_content s) = int (length fl1 + length fl2)
      \<and> ((status (main argc p n ct dt) = Returned 0
           \<and> calls s = setup_calls p n @ floods fl1 @ boundary_calls p n @ floods fl2 @ closing_calls p)
         \<or> ((\<exists>f. status (main argc p n ct dt) = Faulted f)
           \<and> calls s = setup_calls p n @ floods fl1 @ boundary_calls p n @ floods fl2)
         \<or> ((\<exists>f. status (main argc p n ct dt) = Faulted f) \<and> fl2 = []
           \<and> calls s = setup_calls p n @ floods fl1))"
    by blast
  then have ps: "performed (main argc p n ct dt) = calls s" by simp
  from all have sh: "(status (main argc p n ct dt) = Returned 0
           \<and> calls s = setup_calls p n @ floods fl1 @ boundary_calls p n @ floods fl2 @ closing_calls p)
         \<or> ((\<exists>f. status (main argc p n ct dt) = Faulted f)
           \<and> calls s = setup_calls p n @ floods fl1 @ boundary_calls p n @ floods fl2)
         \<or> ((\<exists>f. status (main argc p n ct dt) = Faulted f) \<and> fl2 = []
           \<and> calls s = setup_calls p n @ floods fl1)"
    by simp
  show ?thesis
    apply (rule exI[of _ fl1], rule exI[of _ fl2])
    using sh unfolding ps
    by (auto simp: scheduled_append scheduled_setup scheduled_floods scheduled_boundary
          scheduled_closing flood_events_def)
qed

section \<open>Example runs\<close>

lemmas main_unfold = main_def num_consumers_def u32_pred_def u32_def init_driver_def init_body_def
    producer_disconnect_def obs_connect_def Let_def s32_def

lemma example_status: "status (main 10 example_params 3 example_tape []) = Returned 0"
  by (simp add: main_unfold example_params_def example_tape_def)

lemma upt3: "[0..<3] = [0, 1, 2]"
  by (simp add: upt_rec)

lemma app_to_node_3: "app_to_node 3 2 = 5"
  by (simp add: app_to_node_def upt3 u32_def)

lemma example_scheduled:
  "scheduled (performed (main 10 example_params 3 example_tape [])) =
     [(1 / 5, FloodPacketWithSeq 1 3 2), (7 / 10, FloodPacketWithSeq 1 4 2),
      (1, RemoveRoute 0 ''ndn:///prefix''), (1, RemoveRoute 1 ''ndn:///prefix''),
      (1, RemoveRoute 2 ''ndn:///prefix''), (1, FailLink 2 5),
      (6 / 5, FloodPacketWithSeq 0 3 2), (9 / 5, FloodPacketWithSeq 1 9 2)]"
  by (simp add: main_unfold example_params_def example_tape_def scheduled_append scheduled_setup
      upt3 app_to_node_3 prefix_def)

section \<open>Too few arguments\<close>

text \<open>
  C8.  With fewer than 10 command-line arguments the program prints the
  invalid-parameter message and exits with status 0.  It has then made no call to the
  framework: no topology is read, no node created, no event scheduled, and the local
  state of the driver does not exist yet.
\<close>

theorem too_few_arguments:
  "argc < 10 \<Longrightarrow>
   main argc p n ct dt =
     \<lparr>status = Exited 0, stdout = invalid_message argc, performed = [], final = None\<rparr>"
  by (simp add: main_def)

theorem too_few_arguments_witness:
  "(9::int) < 10 \<and>
   main 9 example_params 3 example_tape [] =
     \<lparr>status = Exited 0,
      stdout = ''Invalid number of parameters: 9, Expecting 10'' @ [CHR 0x0A],
      performed = [], final = None\<rparr>"
  using too_few_arguments[of 9 example_params 3 example_tape "[]"]
  by (simp add: invalid_message_def to_string_def digit_char_def)

section \<open>The attach tables\<close>

lemma attach_app_to_node_lookup:
  "attach_app_to_node n xs m i = (if i \<in> set xs then Some (u32 (i + n)) else m i)"
  by (induction xs arbitrary: m) auto

lemma app_to_node_eq: "i < n \<Longrightarrow> app_to_node n i = u32 (i + n)"
  by (simp add: app_to_node_def attach_app_to_node_lookup)

lemma attach_access_to_router_lookup:
  assumes "\<forall>i\<in>set xs. i + n < 4294967296" "a + n < 4294967296"
  shows "attach_access_to_router n xs m (a + n) = (if a \<in> set xs then Some a else m (a + n))"
  using assms by (induction xs arbitrary: m) (auto simp: u32_small)

lemma access_to_router_eq:
  assumes "a < n" "n \<le> 2147483648"
  shows "access_to_router n (a + n) = a"
proof -
  have "\<forall>i\<in>set [0..<n]. i + n < 4294967296" using assms by auto
  moreover have "a + n < 4294967296" using assms by auto
  ultimately show ?thesis
    using assms by (simp add: access_to_router_def attach_access_to_router_lookup)
qed

lemma u32_pred_pos: "0 < n \<Longrightarrow> n \<le> 4294967296 \<Longrightarrow> u32_pred n = n - 1"
  by (simp add: u32_pred_def u32_def mod_if)

section \<open>The first connect\<close>

text \<open>The first iteration of the do-while loop schedules its flood before the
  condition is looked at.\<close>

lemma init_loop_first:
  assumes "N \<noteq> 0" "N \<le> 4294967296" "num_connected s < 4294967296"
  shows "\<exists>fl. calls (state_of (init_loop N T (d # ds) s))
           = calls s @ floods ((connect_time s, c_gen d mod N, u32 (c_seq d)) # fl)"
proof -
  let ?s' = "init_body N d s"
  note bf = init_body_facts[OF assms(1,2), of d s]
  have lt: "num_connected ?s' < 4294967296" by (simp add: bf u32_def)
  show ?thesis
  proof (cases "connect_time ?s' < T")
    case True
    from init_loop_shape[OF assms(2) lt, of T ds] obtain fl where
      "calls (state_of (init_loop N T ds ?s')) = calls ?s' @ floods fl" by blast
    then show ?thesis
      using True assms(1) by (intro exI[of _ fl]) (simp add: Let_def bf floods_def)
  next
    case False
    then show ?thesis
      using assms(1) by (intro exI[of _ "[]"]) (simp add: Let_def bf floods_def)
  qed
qed

lemma main_after_init:
  assumes "\<not> argc < 10"
  shows "\<exists>rest. performed (main argc p n ct dt)
      = calls (state_of (init_loop (num_consumers n) (initialization_period_length p) ct (init_driver p n))) @ rest"
proof (cases "init_loop (num_consumers n) (initialization_period_length p) ct (init_driver p n)")
  case (Inl fs)
  then show ?thesis using assms by (cases fs) (simp add: main_def halted_def)
next
  case (Inr r)
  obtain ct1 s1 where r: "r = (ct1, s1)" by (cases r)
  let ?s4 = "(producer_disconnect p n s1)\<lparr>connect_time := initialization_period_length p + 0.2,
     disconnect_time := initialization_period_length p + 0.2\<rparr>"
  have n1: "num_connected s1 < 4294967296"
    using init_loop_shape[OF num_consumers_le, of "init_driver p n" n "initialization_period_length p" ct]
    unfolding Inr r by (auto simp: init_driver_def u32_def)
  then have n4: "num_connected ?s4 < 4294967296" by (simp add: producer_disconnect_def)
  from obs_loop_shape[OF num_consumers_le n4, of n p n ct1 dt] obtain fl2 where
    fl2: "calls (state_of (obs_loop (num_consumers n) p n ct1 dt ?s4)) = calls ?s4 @ floods fl2"
    by blast
  show ?thesis
  proof (cases "obs_loop (num_consumers n) p n ct1 dt ?s4")
    case (Inl fs)
    obtain f s where fs: "fs = (f, s)" by (cases fs)
    have m: "main argc p n ct dt = halted (f, s)"
      using assms Inr r Inl fs by (simp add: main_def Let_def)
    show ?thesis
      using fl2 unfolding Inl fs m Inr r
      by (simp add: halted_def producer_disconnect_def)
  next
    case Inr2: (Inr r2)
    obtain tp s5 where r2: "r2 = (tp, s5)" by (cases r2)
    let ?s6 = "s5\<lparr>calls := calls s5 @ closing_calls p\<rparr>"
    have m: "main argc p n ct dt
        = \<lparr>status = Returned 0, stdout = [], performed = calls ?s6, final = Some ?s6\<rparr>"
      using assms Inr r Inr2 r2 by (simp add: main_def Let_def closing_calls_def)
    show ?thesis
      using fl2 unfolding Inr2 r2 m Inr r
      by (simp add: producer_disconnect_def)
  qed
qed

text \<open>
  C9.  With at least 10 arguments and at least one consumer application, the first event
  the program schedules is a connect flood with fire time 0.2 seconds, whatever the
  initialization period length is: the connect loop is a do-while, whose body runs once
  before the condition is tested.  When the period is not longer than 0.2 seconds and
  the gap drawn is not negative, the loop ends after this one flood.
\<close>

theorem first_connect_at_0_2:
  assumes "\<not> argc < 10" and "num_consumers n \<noteq> 0"
  shows "(\<exists>rest. scheduled (performed (main argc p n (d # ds) dt))
            = (0.2, FloodPacketWithSeq (c_gen d mod num_consumers n) (u32 (c_seq d)) 2) # rest)
       \<and> (initialization_period_length p \<le> 0.2 \<and> 0 \<le> c_gap d \<longrightarrow>
            init_loop (num_consumers n) (initialization_period_length p) (d # ds) (init_driver p n)
              = Inr (ds, init_body (num_consumers n) d (init_driver p n)))"
proof
  let ?N = "num_consumers n" and ?T = "initialization_period_length p" and ?s0 = "init_driver p n"
  have n0: "num_connected ?s0 < 4294967296" by (simp add: init_driver_def)
  from init_loop_first[OF assms(2) num_consumers_le n0, of ?T d ds] obtain fl where
    fl: "calls (state_of (init_loop ?N ?T (d # ds) ?s0))
           = calls ?s0 @ floods ((connect_time ?s0, c_gen d mod ?N, u32 (c_seq d)) # fl)"
    by blast
  from main_after_init[OF assms(1), of p n "d # ds" dt] obtain rest where
    "performed (main argc p n (d # ds) dt) = calls (state_of (init_loop ?N ?T (d # ds) ?s0)) @ rest"
    by blast
  then show "\<exists>rest. scheduled (performed (main argc p n (d # ds) dt))
            = (0.2, FloodPacketWithSeq (c_gen d mod ?N) (u32 (c_seq d)) 2) # rest"
    unfolding fl
    by (simp add: scheduled_append init_driver_def scheduled_setup floods_def)
next
  show "initialization_period_length p \<le> 0.2 \<and> 0 \<le> c_gap d \<longrightarrow>
            init_loop (num_consumers n) (initialization_period_length p) (d # ds) (init_driver p n)
              = Inr (ds, init_body (num_consumers n) d (init_driver p n))"
    using assms(2) by (simp add: Let_def init_body_def init_driver_def)
qed

theorem first_connect_at_0_2_witness:
  "\<not> (10::int) < 10 \<and> num_consumers 3 \<noteq> 0
   \<and> hd (scheduled (performed (main 10 short_params 3 example_tape [])))
       = (0.2, FloodPacketWithSeq 1 3 2)
   \<and> initialization_period_length short_params \<le> 0.2
   \<and> fst (projr (init_loop (num_consumers 3) (initialization_period_length short_params)
                example_tape (init_driver short_params 3))) = tl example_tape"
  using first_connect_at_0_2[of 10 3 short_params "hd example_tape" "tl example_tape" "[]"]
  by (auto simp add: example_tape_def short_params_def example_params_def num_consumers_def
       u32_pred_def u32_def)

section \<open>The disconnect body\<close>

text \<open>Two passes through the body from the example state: one takes the only session
  of application 0 away, the other one of the two sessions application 1 holds.\<close>

lemma upt4: "[0..<4] = [0, 1, 2, 3]"
  by (simp add: upt_rec)

lemma example_last_session:
  "disconnect_body 3 example_params 4 last_session_draw example_driver
     = Inr (Continue, after_last_session)"
  by (simp add: disconnect_body_def last_session_draw_def example_driver_def after_last_session_def
      u32_def u32_pred_def Let_def app_to_node_def access_to_router_def upt4 prefix_def
      to_string_def digit_char_def new_lambda_def set_new_lambda_def example_params_def)

lemma example_shared_session:
  "disconnect_body 3 example_params 4 shared_session_draw example_driver
     = Inr (Continue, after_shared_session)"
  by (simp add: disconnect_body_def shared_session_draw_def example_driver_def after_shared_session_def
      u32_def u32_pred_def Let_def new_lambda_def set_new_lambda_def example_params_def)

text \<open>
  C2.  For every active-connection count \<open>nc\<close>, the rate the disconnect distribution
  holds after the adjustment of lines 336 to 341 is the configured disconnection rate
  times \<open>max nc 1\<close>; with a count of zero it is the configured rate times 1, not zero.
  After every pass through the disconnect body the distribution holds the configured rate
  times the larger of 1 and the count the pass leaves behind.
\<close>

theorem disconnect_rate_floor:
  "set_new_lambda old (new_lambda p nc) = disconnection_rate p * real (max nc 1)
   \<and> set_new_lambda old (new_lambda p 0) = disconnection_rate p * 1
   \<and> (disconnect_body N p n d s = Inr (Continue, s') \<longrightarrow>
        rng_exp_dis s' = disconnection_rate p * real (max (num_connected s') 1))"
proof (intro conjI impI)
  show "set_new_lambda old (new_lambda p nc) = disconnection_rate p * real (max nc 1)"
    by (simp add: set_new_lambda_def new_lambda_def max_def)
  show "set_new_lambda old (new_lambda p 0) = disconnection_rate p * 1"
    by (simp add: set_new_lambda_def new_lambda_def)
  assume b: "disconnect_body N p n d s = Inr (Continue, s')"
  then show "rng_exp_dis s' = disconnection_rate p * real (max (num_connected s') 1)"
    by (auto simp: disconnect_body_def Let_def set_new_lambda_def new_lambda_def max_def
          split: if_splits option.splits)
qed

theorem disconnect_rate_floor_witness:
  "disconnect_body 3 example_params 4 last_session_draw example_driver
     = Inr (Continue, after_last_session)
   \<and> num_connected after_last_session = 2
   \<and> rng_exp_dis after_last_session = 1 / 2 * 2
   \<and> set_new_lambda 7 (new_lambda example_params 0) = 1 / 2"
proof -
  have h: "disconnect_body 3 example_params 4 last_session_draw example_driver
     = Inr (Continue, after_last_session)"
    by (rule example_last_session)
  have "rng_exp_dis after_last_session
      = disconnection_rate example_params * real (max (num_connected after_last_session) 1)"
    and "set_new_lambda 7 (new_lambda example_params 0) = disconnection_rate example_params * 1"
    using h disconnect_rate_floor[of 7 example_params 0 3 4 last_session_draw example_driver
          after_last_session]
    by blast+
  then show ?thesis
    using h by (simp add: after_last_session_def example_params_def)
qed

text \<open>
  C6.  When the disconnect body takes the session of consumer application \<open>a\<close> and
  content \<open>key\<close> from count \<open>v\<close> to \<open>v - 1\<close>: if the new count is zero it schedules,
  at the current disconnect time, exactly one removal, of the route named by the prefix
  followed by the content id, at the router the consumer's node is attached to, with the
  consumer's node as next hop, and it erases the session; if the new count is not zero it
  schedules nothing and stores the new count.  In a topology of \<open>n\<close> infrastructure nodes
  the consumer's node is \<open>a + n\<close> and its router is \<open>a\<close>.
\<close>

theorem zero_count_schedules_removal:
  assumes "disconnect_body N p n d s = Inr (Continue, s')"
      and "pick_app N (connected_content s) (d_picks d) = Some a"
      and "connected_content s a ! (d_adv d mod length (connected_content s a)) = (key, v)"
  shows "(v - 1 = 0 \<longrightarrow>
            calls s' = calls s @
              [Schedule (disconnect_time s)
                 (RemoveRouteVia (access_to_router n (app_to_node n a))
                    (''ndn://'' @ prefix @ to_string key) (app_to_node n a))]
            \<and> connected_content s' a
                = take (d_adv d mod length (connected_content s a)) (connected_content s a)
                  @ drop (Suc (d_adv d mod length (connected_content s a))) (connected_content s a))
       \<and> (v - 1 \<noteq> 0 \<longrightarrow>
            calls s' = calls s
            \<and> connected_content s' a
                = (connected_content s a)[d_adv d mod length (connected_content s a) := (key, v - 1)])
       \<and> (a < n \<and> n \<le> 2147483648 \<longrightarrow>
            app_to_node n a = a + n \<and> access_to_router n (app_to_node n a) = a)"
proof -
  let ?m = "connected_content s a" and ?pos = "d_adv d mod length (connected_content s a)"
  have zero: "calls s' = calls s @
              [Schedule (disconnect_time s)
                 (RemoveRouteVia (access_to_router n (app_to_node n a))
                    (''ndn://'' @ prefix @ to_string key) (app_to_node n a))]
            \<and> connected_content s' a = take ?pos ?m @ drop (Suc ?pos) ?m"
    if "v - 1 = 0"
    using assms that by (auto simp: disconnect_body_def Let_def split: if_splits)
  have pos: "calls s' = calls s \<and> connected_content s' a = ?m[?pos := (key, v - 1)]"
    if "v - 1 \<noteq> 0"
    using assms that by (auto simp: disconnect_body_def Let_def split: if_splits)
  have tab: "app_to_node n a = a + n \<and> access_to_router n (app_to_node n a) = a"
    if "a < n \<and> n \<le> 2147483648"
  proof -
    from that have a: "a < n" and n: "n \<le> 2147483648" by auto
    have 1: "app_to_node n a = a + n"
      using a n by (simp add: app_to_node_eq u32_small)
    show ?thesis
      unfolding 1 using access_to_router_eq[OF a n] by simp
  qed
  show ?thesis
    using zero pos tab by blast
qed

theorem zero_count_schedules_removal_witness:
  "disconnect_body 3 example_params 4 last_session_draw example_driver
     = Inr (Continue, after_last_session)
   \<and> pick_app 3 (connected_content example_driver) (d_picks last_session_draw) = Some 0
   \<and> connected_content example_driver 0 ! (d_adv last_session_draw mod 1) = (3, 1)
   \<and> calls after_last_session = [Schedule (13 / 10) (RemoveRouteVia 0 ''ndn:///prefix3'' 4)]
   \<and> connected_content after_last_session 0 = []
   \<and> app_to_node 4 0 = 4 \<and> access_to_router 4 4 = 0
   \<and> disconnect_body 3 example_params 4 shared_session_draw example_driver
     = Inr (Continue, after_shared_session)
   \<and> pick_app 3 (connected_content example_driver) (d_picks shared_session_draw) = Some 1
   \<and> connected_content example_driver 1 ! (d_adv shared_session_draw mod 1) = (4, 2)
   \<and> calls after_shared_session = []
   \<and> connected_content after_shared_session 1 = [(4, 1)]"
proof -
  have h1: "disconnect_body 3 example_params 4 last_session_draw example_driver
     = Inr (Continue, after_last_session)"
    by (rule example_last_session)
  have h2: "pick_app 3 (connected_content example_driver) (d_picks last_session_draw) = Some 0"
    by (simp add: last_session_draw_def example_driver_def u32_def)
  have h3: "connected_content example_driver 0
      ! (d_adv last_session_draw mod length (connected_content example_driver 0)) = (3, 1)"
    by (simp add: last_session_draw_def example_driver_def)
  have h3': "connected_content example_driver 0 ! (d_adv last_session_draw mod 1) = (3, 1)"
    by (simp add: last_session_draw_def example_driver_def)
  have t: "app_to_node 4 0 = 4 \<and> access_to_router 4 4 = 0"
    by (simp add: app_to_node_def access_to_router_def upt4 u32_def)
  note c = zero_count_schedules_removal[OF h1 h2 h3]
  have "calls after_last_session = calls example_driver @
      [Schedule (disconnect_time example_driver)
         (RemoveRouteVia (access_to_router 4 (app_to_node 4 0))
            (''ndn://'' @ prefix @ to_string 3) (app_to_node 4 0))]"
    using c by simp
  then have z1: "calls after_last_session
      = [Schedule (13 / 10) (RemoveRouteVia 0 ''ndn:///prefix3'' 4)]"
    by (simp add: after_last_session_def)
  have z2: "connected_content after_last_session 0 = []"
    by (simp add: after_last_session_def)
  have k1: "disconnect_body 3 example_params 4 shared_session_draw example_driver
     = Inr (Continue, after_shared_session)"
    by (rule example_shared_session)
  have k2: "pick_app 3 (connected_content example_driver) (d_picks shared_session_draw) = Some 1"
    by (simp add: shared_session_draw_def example_driver_def u32_def)
  have k3: "connected_content example_driver 1
      ! (d_adv shared_session_draw mod length (connected_content example_driver 1)) = (4, 2)"
    by (simp add: shared_session_draw_def example_driver_def)
  have k3': "connected_content example_driver 1 ! (d_adv shared_session_draw mod 1) = (4, 2)"
    by (simp add: shared_session_draw_def example_driver_def)
  note c' = zero_count_schedules_removal[OF k1 k2 k3]
  have "calls after_shared_session = calls example_driver"
    using c' by simp
  then have p1: "calls after_shared_session = []"
    by (simp add: example_driver_def)
  have p2: "connected_content after_shared_session 1 = [(4, 1)]"
    by (simp add: after_shared_session_def)
  show ?thesis
    using h1 h2 h3' t z1 z2 k1 k2 k3' p1 p2 by simp
qed

section \<open>The dead disconnect branch\<close>

lemma obs_loop_tape:
  "obs_loop N p n ct dt s =
     (case obs_loop N p n ct [] s of
        Inl fs \<Rightarrow> Inl fs
      | Inr (cd, s') \<Rightarrow> Inr ((fst cd, dt), s'))"
proof (induction ct arbitrary: s)
  case Nil
  show ?case by simp
next
  case (Cons d ct)
  show ?case
    by (simp add: Let_def disconnect_loop_skip Cons.IH[of "_"] split: sum.splits prod.splits)
qed

lemma main_tape: "main argc p n ct dt = main argc p n ct []"
  unfolding main_def Let_def
  by (subst obs_loop_tape) (simp split: sum.splits prod.splits)

lemma filter_flood_events: "filter (\<lambda>x. is_flood (snd x)) (flood_events fl) = flood_events fl"
  by (induction fl) (auto simp: flood_events_def)

lemma filter_flood_boundary: "filter (\<lambda>x. is_flood (snd x)) (boundary_events p n) = []"
  by (simp add: boundary_events_def filter_empty_conv)

lemma length_flood_events: "length (flood_events fl) = length fl"
  by (simp add: flood_events_def)

lemma main_counts:
  assumes "\<not> argc < 10"
  shows "\<exists>s. final (main argc p n ct dt) = Some s
      \<and> rng_exp_dis s = disconnection_rate p
      \<and> num_connected s
          = u32 (length (filter (\<lambda>x. is_flood (snd x)) (scheduled (performed (main argc p n ct dt)))))
      \<and> sessions (num_consumers n) (connected_content s)
          = int (length (filter (\<lambda>x. is_flood (snd x)) (scheduled (performed (main argc p n ct dt)))))"
proof -
  from main_shape[OF assms, of p n ct dt] obtain fl1 fl2 s where all:
    "final (main argc p n ct dt) = Some s
      \<and> performed (main argc p n ct dt) = calls s
      \<and> rng_exp_dis s = disconnection_rate p
      \<and> num_connected s = u32 (length fl1 + length fl2)
      \<and> sessions (num_consumers n) (connected_content s) = int (length fl1 + length fl2)
      \<and> ((status (main argc p n ct dt) = Returned 0
           \<and> calls s = setup_calls p n @ floods fl1 @ boundary_calls p n @ floods fl2 @ closing_calls p)
         \<or> ((\<exists>f. status (main argc p n ct dt) = Faulted f)
           \<and> calls s = setup_calls p n @ floods fl1 @ boundary_calls p n @ floods fl2)
         \<or> ((\<exists>f. status (main argc p n ct dt) = Faulted f) \<and> fl2 = []
           \<and> calls s = setup_calls p n @ floods fl1))"
    by blast
  then have ps: "performed (main argc p n ct dt) = calls s" by simp
  from all have "scheduled (calls s) = flood_events fl1 @ boundary_events p n @ flood_events fl2
      \<or> (fl2 = [] \<and> scheduled (calls s) = flood_events fl1)"
    by (auto simp: scheduled_append scheduled_setup scheduled_floods scheduled_boundary
          scheduled_closing flood_events_def)
  then have "length (filter (\<lambda>x. is_flood (snd x)) (scheduled (calls s))) = length fl1 + length fl2"
    by (auto simp: filter_flood_events filter_flood_boundary length_flood_events)
  with all show ?thesis unfolding ps by (intro exI[of _ s]) simp
qed

text \<open>
  C4.  The disconnect loop of the observation period is \<^verbatim>\<open>while(0)\<close>: it hands back the
  state and the disconnect draws untouched, so the run does not depend on those draws.
  No removal with a next hop is ever scheduled.  In the state \<^verbatim>\<open>main\<close> ends with, the
  disconnect distribution still holds the configured rate, and both the connection count
  (in \<^verbatim>\<open>uint32_t\<close> arithmetic) and the total of the session counts equal the number of
  connect floods scheduled: every connect added one and nothing was ever taken away.
\<close>

theorem disconnect_branch_never_runs:
  "disconnect_loop N p n dt s = Inr (dt, s)
   \<and> main argc p n ct dt = main argc p n ct []
   \<and> (\<forall>t r nm a. Schedule t (RemoveRouteVia r nm a) \<notin> set (performed (main argc p n ct dt)))
   \<and> (\<forall>s'. final (main argc p n ct dt) = Some s' \<longrightarrow>
         rng_exp_dis s' = disconnection_rate p
         \<and> num_connected s'
             = u32 (length (filter (\<lambda>x. is_flood (snd x)) (scheduled (performed (main argc p n ct dt)))))
         \<and> sessions (num_consumers n) (connected_content s')
             = int (length (filter (\<lambda>x. is_flood (snd x)) (scheduled (performed (main argc p n ct dt))))))"
proof (intro conjI allI impI)
  show "disconnect_loop N p n dt s = Inr (dt, s)" by (rule disconnect_loop_skip)
  show "main argc p n ct dt = main argc p n ct []" by (rule main_tape)
  show "Schedule t (RemoveRouteVia r nm a) \<notin> set (performed (main argc p n ct dt))" for t r nm a
  proof (cases "argc < 10")
    case True
    then show ?thesis by (simp add: main_def)
  next
    case False
    from main_scheduled[OF False, of p n ct dt] obtain fl1 fl2 where
      "scheduled (performed (main argc p n ct dt)) = flood_events fl1 @ boundary_events p n @ flood_events fl2
       \<or> scheduled (performed (main argc p n ct dt)) = flood_events fl1"
      by blast
    then have "(t, RemoveRouteVia r nm a) \<notin> set (scheduled (performed (main argc p n ct dt)))"
      by (auto simp: flood_events_def boundary_events_def)
    then show ?thesis by (simp add: scheduled_set)
  qed
next
  fix s'
  assume f: "final (main argc p n ct dt) = Some s'"
  then have na: "\<not> argc < 10" by (auto simp: main_def)
  from main_counts[OF na, of p n ct dt] f
  show "rng_exp_dis s' = disconnection_rate p"
    and "num_connected s'
             = u32 (length (filter (\<lambda>x. is_flood (snd x)) (scheduled (performed (main argc p n ct dt)))))"
    and "sessions (num_consumers n) (connected_content s')
             = int (length (filter (\<lambda>x. is_flood (snd x)) (scheduled (performed (main argc p n ct dt)))))"
    by auto
qed

lemma example_final:
  "\<exists>s. final (main 10 example_params 3 example_tape []) = Some s"
  by (simp add: main_unfold example_params_def example_tape_def)

theorem disconnect_branch_never_runs_witness:
  "\<exists>s'. final (main 10 example_params 3 example_tape [last_session_draw]) = Some s'
     \<and> rng_exp_dis s' = 1 / 2 \<and> num_connected s' = 4
     \<and> sessions 2 (connected_content s') = 4"
proof -
  from example_final obtain s' where f: "final (main 10 example_params 3 example_tape []) = Some s'"
    by blast
  note c = disconnect_branch_never_runs[of 2 example_params 3 "[last_session_draw]" s' 10 example_tape]
  from c have m: "main 10 example_params 3 example_tape [last_session_draw]
      = main 10 example_params 3 example_tape []" by blast
  have two: "num_consumers 3 = 2" by (simp add: num_consumers_def u32_pred_def u32_def)
  from c f have "rng_exp_dis s' = disconnection_rate example_params
      \<and> num_connected s' = u32 (length (filter (\<lambda>x. is_flood (snd x))
            (scheduled (performed (main 10 example_params 3 example_tape [])))))
      \<and> sessions (num_consumers 3) (connected_content s') = int (length (filter (\<lambda>x. is_flood (snd x))
            (scheduled (performed (main 10 example_params 3 example_tape [])))))"
    unfolding m by blast
  moreover have "disconnection_rate example_params = 1 / 2"
    by (simp add: example_params_def)
  ultimately have "rng_exp_dis s' = 1 / 2 \<and> num_connected s' = 4 \<and> sessions 2 (connected_content s') = 4"
    by (simp add: example_scheduled two u32_def)
  with f show ?thesis unfolding m by blast
qed

section \<open>Link control\<close>

lemma filter_link_flood_events: "filter (\<lambda>x. is_link_event (snd x)) (flood_events fl) = []"
  by (induction fl) (auto simp: flood_events_def)

lemma filter_link_boundary:
  "filter (\<lambda>x. is_link_event (snd x)) (boundary_events p n)
     = [(initialization_period_length p, FailLink (u32_pred n) (app_to_node n (u32_pred n)))]"
  by (simp add: boundary_events_def filter_empty_conv)

lemma P2PInstall_setup: "i < n \<Longrightarrow> P2PInstall i (u32 (i + n)) \<in> set (setup_calls p n)"
  by (simp add: setup_calls_def)

lemma main_setup:
  assumes "\<not> argc < 10"
  shows "\<exists>rest. performed (main argc p n ct dt) = setup_calls p n @ rest"
proof -
  from main_shape[OF assms, of p n ct dt] obtain fl1 fl2 s where all:
    "final (main argc p n ct dt) = Some s
      \<and> performed (main argc p n ct dt) = calls s
      \<and> rng_exp_dis s = disconnection_rate p
      \<and> num_connected s = u32 (length fl1 + length fl2)
      \<and> sessions (num_consumers n) (connected_content s) = int (length fl1 + length fl2)
      \<and> ((status (main argc p n ct dt) = Returned 0
           \<and> calls s = setup_calls p n @ floods fl1 @ boundary_calls p n @ floods fl2 @ closing_calls p)
         \<or> ((\<exists>f. status (main argc p n ct dt) = Faulted f)
           \<and> calls s = setup_calls p n @ floods fl1 @ boundary_calls p n @ floods fl2)
         \<or> ((\<exists>f. status (main argc p n ct dt) = Faulted f) \<and> fl2 = []
           \<and> calls s = setup_calls p n @ floods fl1))"
    by blast
  then show ?thesis by auto
qed

text \<open>
  C10.  Whatever the inputs, the events the program schedules contain at most one that
  changes a link's status, and none that restores a link.  In a run that reaches the
  simulator there is exactly one: a link failure at the phase boundary.  In a topology of
  \<open>n\<close> infrastructure nodes the link that fails joins the last infrastructure node
  \<open>n - 1\<close> to the producer node, which is the link the attach loop installed for the
  producer.
\<close>

theorem single_link_failure:
  "(filter (\<lambda>x. is_link_event (snd x)) (scheduled (performed (main argc p n ct dt))) = []
      \<or> filter (\<lambda>x. is_link_event (snd x)) (scheduled (performed (main argc p n ct dt)))
           = [(initialization_period_length p, FailLink (u32_pred n) (app_to_node n (u32_pred n)))])
   \<and> (status (main argc p n ct dt) = Returned 0 \<longrightarrow>
        filter (\<lambda>x. is_link_event (snd x)) (scheduled (performed (main argc p n ct dt)))
          = [(initialization_period_length p, FailLink (u32_pred n) (app_to_node n (u32_pred n)))]
        \<and> (0 < n \<and> n \<le> 2147483648 \<longrightarrow>
             u32_pred n = n - 1 \<and> app_to_node n (u32_pred n) = n + (n - 1)
             \<and> producer_node n = [n + (n - 1)]
             \<and> P2PInstall (n - 1) (n + (n - 1)) \<in> set (performed (main argc p n ct dt))))"
proof (cases "argc < 10")
  case True
  then show ?thesis by (simp add: main_def)
next
  case na: False
  let ?L = "filter (\<lambda>x. is_link_event (snd x)) (scheduled (performed (main argc p n ct dt)))"
  let ?F = "(initialization_period_length p, FailLink (u32_pred n) (app_to_node n (u32_pred n)))"
  from main_scheduled[OF na, of p n ct dt] obtain fl1 fl2 where sh:
    "(scheduled (performed (main argc p n ct dt))
         = flood_events fl1 @ boundary_events p n @ flood_events fl2
       \<and> (status (main argc p n ct dt) = Returned 0 \<or> (\<exists>f. status (main argc p n ct dt) = Faulted f)))
     \<or> (scheduled (performed (main argc p n ct dt)) = flood_events fl1
       \<and> (\<exists>f. status (main argc p n ct dt) = Faulted f))"
    by blast
  then have most: "?L = [] \<or> ?L = [?F]"
    by (auto simp: filter_link_flood_events filter_link_boundary)
  have one: "?L = [?F]" if "status (main argc p n ct dt) = Returned 0"
    using sh that by (auto simp: filter_link_flood_events filter_link_boundary)
  have topo: "u32_pred n = n - 1 \<and> app_to_node n (u32_pred n) = n + (n - 1)
            \<and> producer_node n = [n + (n - 1)]
            \<and> P2PInstall (n - 1) (n + (n - 1)) \<in> set (performed (main argc p n ct dt))"
    if "0 < n \<and> n \<le> 2147483648"
  proof -
    from that have pos: "0 < n" and le: "n \<le> 2147483648" by auto
    have pred: "u32_pred n = n - 1" using pos le by (simp add: u32_pred_pos)
    have small: "u32 (n - 1 + n) = n + (n - 1)" using pos le by (simp add: u32_small)
    have app: "app_to_node n (n - 1) = n + (n - 1)"
      using pos small by (simp add: app_to_node_eq)
    have prod: "producer_node n = [n + (n - 1)]"
      by (simp add: producer_node_def num_consumers_def pred)
    from main_setup[OF na, of p n ct dt] obtain rest where
      "performed (main argc p n ct dt) = setup_calls p n @ rest" by blast
    moreover have "P2PInstall (n - 1) (u32 (n - 1 + n)) \<in> set (setup_calls p n)"
      using pos by (intro P2PInstall_setup) simp
    ultimately have "P2PInstall (n - 1) (n + (n - 1)) \<in> set (performed (main argc p n ct dt))"
      unfolding small by simp
    with pred app prod show ?thesis by simp
  qed
  show ?thesis using most one topo by blast
qed

theorem single_link_failure_witness:
  "status (main 10 example_params 3 example_tape []) = Returned 0
   \<and> filter (\<lambda>x. is_link_event (snd x))
        (scheduled (performed (main 10 example_params 3 example_tape [])))
       = [(1, FailLink 2 5)]
   \<and> producer_node 3 = [5]
   \<and> P2PInstall 2 5 \<in> set (performed (main 10 example_params 3 example_tape []))"
proof -
  note c = single_link_failure[of 10 example_params 3 example_tape "[]"]
  have "(0::nat) < 3 \<and> (3::nat) \<le> 2147483648" by simp
  with c example_status have "producer_node 3 = [3 + (3 - 1)]
      \<and> P2PInstall (3 - 1) (3 + (3 - 1)) \<in> set (performed (main 10 example_params 3 example_tape []))"
    by blast
  then have "producer_node 3 = [5]
      \<and> P2PInstall 2 5 \<in> set (performed (main 10 example_params 3 example_tape []))"
    by simp
  moreover have "filter (\<lambda>x. is_link_event (snd x))
        (scheduled (performed (main 10 example_params 3 example_tape [])))
       = [(1, FailLink 2 5)]"
    by (simp add: example_scheduled)
  ultimately show ?thesis using example_status by simp
qed

section \<open>The content store keeps the order of last use\<close>

lemma last_touch_snoc:
  "last_touch c (ops @ [x]) = (if op_id x = c then Suc (length ops) else last_touch c ops)"
  by (simp add: last_touch_def)

lemma last_touch_le: "last_touch c ops \<le> length ops"
  unfolding last_touch_def
  using length_dropWhile_le[of "\<lambda>x. op_id x \<noteq> c" "rev ops"] by simp

lemma cs_run_snoc: "cs_run (ops @ [x]) s = cs_step (cs_run ops s) x"
  by (simp add: cs_run_def)

lemma capacity_step: "capacity (cs_step s x) = capacity s"
  by (cases x) (simp_all add: cs_get_def cs_put_def)

lemma capacity_run: "capacity (cs_run ops s) = capacity s"
  by (induction ops rule: rev_induct) (simp_all add: cs_run_snoc capacity_step, simp add: cs_run_def)

lemma length_removeAll_distinct:
  "distinct xs \<Longrightarrow> c \<in> set xs \<Longrightarrow> Suc (length (removeAll c xs)) = length xs"
  by (induction xs) (auto simp: distinct_removeAll)

lemma touch_order:
  assumes "lru_ordered ops s" "set ys \<subseteq> set (entries s)" "op_id x \<notin> set ys"
    and "sorted_wrt (\<lambda>a b. last_touch b ops < last_touch a ops) ys" "distinct ys"
  shows "distinct (op_id x # ys)
       \<and> sorted_wrt (\<lambda>a b. last_touch b (ops @ [x]) < last_touch a (ops @ [x])) (op_id x # ys)
       \<and> list_all (\<lambda>c. 0 < last_touch c (ops @ [x])) (op_id x # ys)"
proof -
  have same: "last_touch y (ops @ [x]) = last_touch y ops" if "y \<in> set ys" for y
    using that assms(3) by (auto simp: last_touch_snoc)
  have new: "last_touch (op_id x) (ops @ [x]) = Suc (length ops)"
    by (simp add: last_touch_snoc)
  have below: "last_touch y (ops @ [x]) < last_touch (op_id x) (ops @ [x])" if "y \<in> set ys" for y
    using same[OF that] new last_touch_le[of y ops] by simp
  have pos: "0 < last_touch y (ops @ [x])" if "y \<in> set ys" for y
    using same[OF that] that assms(1,2) by (auto simp: lru_ordered_def list_all_iff)
  have srt: "sorted_wrt (\<lambda>a b. last_touch b (ops @ [x]) < last_touch a (ops @ [x])) ys"
    using assms(4) same by (auto simp: sorted_wrt_iff_nth_less)
  show ?thesis
    using assms(3,5) below pos srt new by (auto simp: list_all_iff)
qed

lemma lru_ordered_step:
  assumes "lru_ordered ops s"
  shows "lru_ordered (ops @ [x]) (cs_step s x)"
proof -
  let ?P = "\<lambda>a b. last_touch b ops < last_touch a ops"
  from assms have d: "distinct (entries s)" and srt: "sorted_wrt ?P (entries s)"
    by (auto simp: lru_ordered_def)
  have rem: "set (removeAll c (entries s)) \<subseteq> set (entries s)"
    "c \<notin> set (removeAll c (entries s))"
    "sorted_wrt ?P (removeAll c (entries s))" "distinct (removeAll c (entries s))" for c
    using d srt by (auto simp: removeAll_filter_not_eq sorted_wrt_filter)
  have but: "set (butlast (entries s)) \<subseteq> set (entries s)"
    "sorted_wrt ?P (butlast (entries s))" "distinct (butlast (entries s))"
  proof -
    show "set (butlast (entries s)) \<subseteq> set (entries s)"
      by (auto dest: in_set_butlastD)
    show "sorted_wrt ?P (butlast (entries s))"
      unfolding butlast_conv_take using srt by (rule sorted_wrt_take)
    show "distinct (butlast (entries s))"
      using d by (rule distinct_butlast)
  qed
  have keep: "lru_ordered (ops @ [x]) s" if "op_id x \<notin> set (entries s)"
    using touch_order[OF assms subset_refl that srt d] by (simp add: lru_ordered_def)
  have front: "lru_ordered (ops @ [x]) (s\<lparr>entries := op_id x # ys\<rparr>)"
    if "set ys \<subseteq> set (entries s)" "op_id x \<notin> set ys" "sorted_wrt ?P ys" "distinct ys" for ys
    using touch_order[OF assms that] by (simp add: lru_ordered_def)
  show ?thesis
  proof (cases x)
    case (Get c)
    show ?thesis
    proof (cases "c \<in> set (entries s)")
      case True
      then show ?thesis
        using front[OF rem(1)[of c] _ rem(3,4)[of c]] rem(2)[of c] Get by (simp add: cs_get_def)
    next
      case False
      then show ?thesis using keep Get by (simp add: cs_get_def)
    qed
  next
    case (Put c)
    show ?thesis
    proof (cases "c \<in> set (entries s)")
      case True
      then show ?thesis
        using front[OF rem(1)[of c] _ rem(3,4)[of c]] rem(2)[of c] Put by (simp add: cs_put_def)
    next
      case False
      have nb: "c \<notin> set (butlast (entries s))" using False but(1) by auto
      show ?thesis
        using False Put front[OF but(1) _ but(2,3)] front[OF subset_refl _ srt d] nb
        by (simp add: cs_put_def)
    qed
  qed
qed

lemma lru_ordered_run:
  assumes "entries s0 = []"
  shows "lru_ordered ops (cs_run ops s0)"
proof (induction ops rule: rev_induct)
  case Nil
  show ?case using assms by (simp add: lru_ordered_def cs_run_def)
next
  case (snoc x ops)
  then show ?case unfolding cs_run_snoc by (rule lru_ordered_step)
qed

lemma length_step:
  assumes "length (entries s) \<le> capacity s" "0 < capacity s" "distinct (entries s)"
  shows "length (entries (cs_step s x)) \<le> capacity s"
proof (cases x)
  case (Get c)
  then show ?thesis
    using assms length_removeAll_distinct[of "entries s" c] by (auto simp: cs_get_def)
next
  case (Put c)
  then show ?thesis
    using assms length_removeAll_distinct[of "entries s" c] by (auto simp: cs_put_def)
qed

lemma length_run:
  assumes "entries s0 = []" "0 < capacity s0"
  shows "length (entries (cs_run ops s0)) \<le> capacity s0"
proof (induction ops rule: rev_induct)
  case Nil
  show ?case using assms by (simp add: cs_run_def)
next
  case (snoc x ops)
  have "distinct (entries (cs_run ops s0))"
    using lru_ordered_run[OF assms(1), of ops] by (simp add: lru_ordered_def)
  with snoc assms(2) show ?case
    unfolding cs_run_snoc using length_step[of "cs_run ops s0" x] by (simp add: capacity_run)
qed

section \<open>The queue keeps time order and, within one time, insertion order\<close>

lemma set_enqueue: "set (enqueue x q) = insert x (set q)"
  by (induction q) auto

lemma sorted_enqueue: "sorted (map fst q) \<Longrightarrow> sorted (map fst (enqueue x q))"
  by (induction q) (auto simp: set_enqueue)

lemma filter_enqueue:
  "sorted (map fst q) \<Longrightarrow>
   filter (\<lambda>y. fst y = t) (enqueue x q)
     = filter (\<lambda>y. fst y = t) q @ (if fst x = t then [x] else [])"
proof (induction q)
  case Nil
  show ?case by simp
next
  case (Cons y q)
  then have later: "\<forall>z\<in>set q. fst y \<le> fst z" and srt: "sorted (map fst q)" by auto
  show ?case
  proof (cases "fst x < fst y")
    case True
    then have "\<forall>z\<in>set (y # q). fst z \<noteq> fst x" using later by auto
    then have "filter (\<lambda>z. fst z = fst x) (y # q) = []" by (simp add: filter_empty_conv)
    then show ?thesis using True by auto
  next
    case False
    then show ?thesis using Cons.IH[OF srt] by simp
  qed
qed

lemma enqueue_all_Nil: "enqueue_all [] q = q"
  by (simp add: enqueue_all_def)

lemma enqueue_all_snoc: "enqueue_all (xs @ [x]) q = enqueue x (enqueue_all xs q)"
  by (simp add: enqueue_all_def)

lemma set_enqueue_all: "set (enqueue_all xs q) = set xs \<union> set q"
  by (induction xs rule: rev_induct) (auto simp: enqueue_all_Nil enqueue_all_snoc set_enqueue)

lemma sorted_enqueue_all: "sorted (map fst q) \<Longrightarrow> sorted (map fst (enqueue_all xs q))"
  by (induction xs rule: rev_induct) (simp_all add: enqueue_all_Nil enqueue_all_snoc sorted_enqueue)

lemma filter_enqueue_all:
  "sorted (map fst q) \<Longrightarrow>
   filter (\<lambda>y. fst y = t) (enqueue_all xs q)
     = filter (\<lambda>y. fst y = t) q @ filter (\<lambda>y. fst y = t) xs"
proof (induction xs rule: rev_induct)
  case Nil
  show ?case by (simp add: enqueue_all_def)
next
  case (snoc x xs)
  then show ?case
    by (simp add: enqueue_all_snoc filter_enqueue sorted_enqueue_all)
qed

lemma sorted_three_way:
  "sorted (map fst q) \<Longrightarrow>
   q = filter (\<lambda>y. fst y < t) q @ filter (\<lambda>y. fst y = t) q @ filter (\<lambda>y. t < fst y) (q :: queue)"
proof (induction q)
  case Nil
  show ?case by simp
next
  case (Cons y q)
  then have later: "\<forall>z\<in>set q. fst y \<le> fst z" and srt: "sorted (map fst q)" by auto
  note IH = Cons.IH[OF srt]
  consider "fst y < t" | "fst y = t" | "t < fst y" by linarith
  then show ?case
  proof cases
    case 1
    then show ?thesis using IH by simp
  next
    case 2
    then have "filter (\<lambda>z. fst z < t) q = []" using later by (auto simp: filter_empty_conv)
    then show ?thesis using 2 IH by simp
  next
    case 3
    then have "filter (\<lambda>z. fst z < t) q = []" "filter (\<lambda>z. fst z = t) q = []"
      using later by (auto simp: filter_empty_conv)
    then show ?thesis using 3 IH by simp
  qed
qed

lemma queue_split:
  assumes "\<forall>x\<in>set bnd. fst x = t"
  shows "\<exists>pre post. enqueue_all (f1 @ bnd @ f2) [] = pre @ bnd @ post
           \<and> set pre \<subseteq> set f1 \<union> set f2 \<and> set post \<subseteq> set f1 \<union> set f2
           \<and> (\<forall>x\<in>set pre. fst x \<le> t) \<and> (\<forall>x\<in>set post. t \<le> fst x)"
proof -
  let ?Q = "enqueue_all (f1 @ bnd @ f2) []"
  let ?pre = "filter (\<lambda>y. fst y < t) ?Q @ filter (\<lambda>y. fst y = t) f1"
  let ?post = "filter (\<lambda>y. fst y = t) f2 @ filter (\<lambda>y. t < fst y) ?Q"
  have srt: "sorted (map fst ?Q)" by (simp add: sorted_enqueue_all)
  have eqt: "filter (\<lambda>y. fst y = t) ?Q
      = filter (\<lambda>y. fst y = t) f1 @ bnd @ filter (\<lambda>y. fst y = t) f2"
    using assms by (simp add: filter_enqueue_all filter_id_conv)
  have "?Q = ?pre @ bnd @ ?post"
    using sorted_three_way[OF srt, of t] unfolding eqt by simp
  moreover have "set ?pre \<subseteq> set f1 \<union> set f2" "set ?post \<subseteq> set f1 \<union> set f2"
    using assms by (auto simp: set_enqueue_all)
  moreover have "\<forall>x\<in>set ?pre. fst x \<le> t" "\<forall>x\<in>set ?post. t \<le> fst x"
    by auto
  ultimately show ?thesis by blast
qed

section \<open>Running the queue\<close>

lemma apply_events_Nil: "apply_events [] w = w"
  by (simp add: apply_events_def)

lemma apply_events_Cons: "apply_events (x # xs) w = apply_events xs (handle (snd x) w)"
  by (simp add: apply_events_def)

lemma apply_events_append: "apply_events (xs @ ys) w = apply_events ys (apply_events xs w)"
  by (simp add: apply_events_def)

lemma run_until_append:
  "\<forall>x\<in>set a. fst x \<le> stop \<Longrightarrow>
   run_until stop (a @ b) w = run_until stop a w @ run_until stop b (apply_events a w)"
  by (induction a arbitrary: w) (auto simp: apply_events_Nil apply_events_Cons)

lemma fired_run_until_all:
  "\<forall>x\<in>set a. fst x \<le> stop \<Longrightarrow> fired (run_until stop a w) = a"
  by (induction a arbitrary: w) (auto simp: fired_def)

lemma run_until_time: "x \<in> set (run_until stop q w) \<Longrightarrow> fst x \<le> stop"
  by (induction q arbitrary: w) (auto split: if_splits)

lemma run_until_fired: "x \<in> set (run_until stop q w) \<Longrightarrow> (fst x, fst (snd x)) \<in> set q"
proof (induction q arbitrary: w)
  case Nil
  then show ?case by simp
next
  case (Cons y q)
  obtain t e where y: "y = (t, e)" by (cases y)
  from Cons.prems have "x = (t, e, w) \<or> x \<in> set (run_until stop q (handle e w))"
    unfolding y by (simp split: if_splits)
  then show ?case
  proof
    assume "x = (t, e, w)"
    then show ?thesis by (simp add: y)
  next
    assume "x \<in> set (run_until stop q (handle e w))"
    from Cons.IH[OF this] show ?thesis by simp
  qed
qed

lemma apply_floods: "\<forall>x\<in>set q. is_flood (snd x) \<Longrightarrow> apply_events q w = w"
proof (induction q arbitrary: w)
  case Nil
  show ?case by (simp add: apply_events_Nil)
next
  case (Cons x q)
  then obtain a c h where "snd x = FloodPacketWithSeq a c h"
    by (cases "snd x") auto
  with Cons show ?case by (simp add: apply_events_Cons)
qed

lemma run_until_floods:
  "\<forall>x\<in>set q. is_flood (snd x) \<Longrightarrow> y \<in> set (run_until stop q w) \<Longrightarrow> snd (snd y) = w"
proof (induction q arbitrary: w)
  case Nil
  then show ?case by simp
next
  case (Cons x q)
  then obtain a c h where "snd x = FloodPacketWithSeq a c h"
    by (cases "snd x") auto
  with Cons show ?case by (cases x) (auto split: if_splits)
qed

section \<open>What the boundary events do\<close>

lemma routes_apply_removals:
  "routes (apply_events (map (\<lambda>k. (t, RemoveRoute k nm)) ks) w)
     = filter (\<lambda>r. \<not> (fst r \<in> set ks \<and> fst (snd r) = nm)) (routes w)"
proof (induction ks arbitrary: w)
  case Nil
  show ?case by (simp add: apply_events_Nil)
next
  case (Cons k ks)
  show ?case
    by (simp add: apply_events_Cons Cons.IH) (rule filter_cong, auto)
qed

lemma down_links_apply_removals:
  "down_links (apply_events (map (\<lambda>k. (t, RemoveRoute k nm)) ks) w) = down_links w"
  by (induction ks arbitrary: w) (simp_all add: apply_events_Nil apply_events_Cons)

lemma run_until_removals:
  assumes "y \<in> set (run_until stop (map (\<lambda>k. (t, RemoveRoute k nm)) ks) w)"
  shows "\<not> is_link_event (fst (snd y))"
  using run_until_fired[OF assms] by auto

lemma link_down_handle_FailLink: "link_down (handle (FailLink a b) w) a b"
  by (simp add: link_down_def)

lemma routes_handle_FailLink: "routes (handle (FailLink a b) w) = routes w"
  by simp

lemma boundary_events_split:
  "boundary_events p n
     = map (\<lambda>k. (initialization_period_length p, RemoveRoute k (''ndn://'' @ prefix))) [0..<n]
       @ [(initialization_period_length p, FailLink (u32_pred n) (app_to_node n (u32_pred n)))]"
  by (simp add: boundary_events_def)

text \<open>After the boundary events no infrastructure node holds a route for the producer's
  prefix, and the producer's link is down.\<close>

lemma after_boundary:
  "(\<forall>k<n. \<forall>h. (k, ''ndn://'' @ prefix, h) \<notin> set (routes (apply_events (boundary_events p n) w)))
   \<and> link_down (apply_events (boundary_events p n) w) (u32_pred n) (app_to_node n (u32_pred n))"
  unfolding boundary_events_split apply_events_append
  by (simp add: apply_events_Cons apply_events_Nil routes_apply_removals link_down_def)

text \<open>When the link failure fires, the removals have all been applied.\<close>

lemma boundary_run:
  assumes "y \<in> set (run_until stop (boundary_events p n) w)" "is_link_event (fst (snd y))"
  shows "\<forall>k<n. \<forall>h. (k, ''ndn://'' @ prefix, h) \<notin> set (routes (snd (snd y)))"
proof (cases "initialization_period_length p \<le> stop")
  case False
  then have "run_until stop (boundary_events p n) w = []"
    by (cases n) (simp_all add: boundary_events_def upt_rec)
  with assms show ?thesis by simp
next
  case True
  let ?rm = "map (\<lambda>k. (initialization_period_length p, RemoveRoute k (''ndn://'' @ prefix))) [0..<n]"
  have "\<forall>x\<in>set ?rm. fst x \<le> stop" using True by auto
  from run_until_append[OF this] assms(1)
  have "y \<in> set (run_until stop ?rm w) \<or>
        y = (initialization_period_length p, FailLink (u32_pred n) (app_to_node n (u32_pred n)),
             apply_events ?rm w)"
    unfolding boundary_events_split using True by auto
  with run_until_removals assms(2)
  have "snd (snd y) = apply_events ?rm w" by fastforce
  then show ?thesis by (simp add: routes_apply_removals)
qed

section \<open>From the calls of \<^verbatim>\<open>main\<close> to the run\<close>

lemma sim_calls_append:
  "sim_calls (a @ b) s = (case sim_calls a s of Inl e \<Rightarrow> Inl e | Inr s' \<Rightarrow> sim_calls b s')"
  by (induction a arbitrary: s) (auto split: sum.splits)

lemma sim_calls_noop:
  "\<forall>c\<in>set cs. sim_call c s = Inr s \<Longrightarrow> sim_calls cs s = Inr s"
  by (induction cs) auto

lemma sim_calls_setup: "sim_calls (setup_calls p n) s = Inr s"
  by (rule sim_calls_noop) (auto simp: setup_calls_def)

lemma enqueue_all_Cons: "enqueue_all (x # xs) q = enqueue_all xs (enqueue x q)"
  by (simp add: enqueue_all_def)

lemma sim_calls_schedules:
  "sim_calls (map (\<lambda>x. Schedule (fst x) (snd x)) xs) s =
     (if \<forall>x\<in>set xs. 0 \<le> fst x
      then Inr (s\<lparr>sim_queue := enqueue_all xs (sim_queue s)\<rparr>)
      else Inl InvalidTime)"
proof (induction xs arbitrary: s)
  case Nil
  show ?case by (simp add: enqueue_all_Nil)
next
  case (Cons x xs)
  show ?case
    by (cases "fst x < 0") (auto simp: Cons.IH enqueue_all_Cons not_less)
qed

lemma floods_as_schedules: "floods fl = map (\<lambda>x. Schedule (fst x) (snd x)) (flood_events fl)"
  by (simp add: floods_def flood_events_def split_def)

lemma boundary_as_schedules:
  "boundary_calls p n = map (\<lambda>x. Schedule (fst x) (snd x)) (boundary_events p n)"
  by (simp add: boundary_calls_def boundary_events_def)

lemma enqueue_all_append: "enqueue_all (a @ b) q = enqueue_all b (enqueue_all a q)"
  by (simp add: enqueue_all_def)

lemma sim_calls_closing:
  "sim_calls (closing_calls p) s =
     (if observation_period_length p + initialization_period_length p < 0 then Inl InvalidTime
      else Inr (s\<lparr>sim_stop := Some (observation_period_length p + initialization_period_length p),
                  sim_trace := run_until (observation_period_length p + initialization_period_length p)
                                 (sim_queue s) (sim_world s)\<rparr>))"
  by (simp add: closing_calls_def)

lemma simulate_schedules:
  "simulate w0 (setup_calls p n @ map (\<lambda>x. Schedule (fst x) (snd x)) evs @ closing_calls p) =
     (if (\<forall>x\<in>set evs. 0 \<le> fst x)
         \<and> \<not> observation_period_length p + initialization_period_length p < 0
      then Inr (run_until (observation_period_length p + initialization_period_length p)
                  (enqueue_all evs []) w0)
      else Inl InvalidTime)"
  by (simp add: simulate_def sim_calls_append sim_calls_setup sim_calls_schedules
        sim_calls_closing)

lemma simulate_returned:
  assumes "simulate w0 (setup_calls p n @ floods fl1 @ boundary_calls p n @ floods fl2
              @ closing_calls p) = Inr tr"
  shows "tr = run_until (observation_period_length p + initialization_period_length p)
               (enqueue_all (flood_events fl1 @ boundary_events p n @ flood_events fl2) []) w0"
proof -
  let ?evs = "flood_events fl1 @ boundary_events p n @ flood_events fl2"
  have eq: "setup_calls p n @ floods fl1 @ boundary_calls p n @ floods fl2 @ closing_calls p
      = setup_calls p n @ (map (\<lambda>x. Schedule (fst x) (snd x)) ?evs) @ closing_calls p"
    by (simp add: floods_as_schedules boundary_as_schedules)
  show ?thesis
    using assms unfolding eq simulate_schedules by (simp split: if_splits)
qed

lemma is_flood_flood_events: "\<forall>x\<in>set (flood_events fl). is_flood (snd x)"
  by (auto simp: flood_events_def)

text \<open>
  C1.  In a run of the scenario on the scheduler, the events of the phase
  boundary (the removal of the route for the producer's prefix at every infrastructure
  node in turn, then the failure of the producer's link, all at the initialization
  length) fire in the order they were scheduled, after events of no later time only, and
  so before every event of a strictly later time.  When the link failure fires, every
  removal has been applied.  Every event fired at a strictly later time finds no route
  for the prefix at any infrastructure node and the producer's link down, so that nothing
  can be forwarded along such a route or across that link.
\<close>

theorem boundary_before_later_events:
  assumes "status (main argc p n ct dt) = Returned 0"
      and "simulate w0 (performed (main argc p n ct dt)) = Inr tr"
  shows "(0 \<le> observation_period_length p \<longrightarrow>
            (\<exists>pre post. fired tr = pre @ boundary_events p n @ post
               \<and> (\<forall>x\<in>set pre. fst x \<le> initialization_period_length p)))
       \<and> (\<forall>x\<in>set tr. is_link_event (fst (snd x)) \<longrightarrow>
            (\<forall>k<n. \<forall>h. (k, ''ndn://'' @ prefix, h) \<notin> set (routes (snd (snd x)))))
       \<and> (\<forall>x\<in>set tr. initialization_period_length p < fst x \<longrightarrow>
            (\<forall>k<n. \<forall>h. (k, ''ndn://'' @ prefix, h) \<notin> set (routes (snd (snd x)))
                       \<and> \<not> forwardable (snd (snd x)) k h (''ndn://'' @ prefix))
            \<and> link_down (snd (snd x)) (u32_pred n) (app_to_node n (u32_pred n))
            \<and> (\<forall>nm. \<not> forwardable (snd (snd x)) (u32_pred n) (app_to_node n (u32_pred n)) nm))"
proof -
  let ?T = "initialization_period_length p"
  let ?stop = "observation_period_length p + initialization_period_length p"
  let ?B = "boundary_events p n"
  let ?nm = "''ndn://'' @ prefix"
  have na: "\<not> argc < 10" using assms(1) by (auto simp: main_def)
  from main_shape[OF na, of p n ct dt] obtain fl1 fl2 s where all:
    "final (main argc p n ct dt) = Some s
      \<and> performed (main argc p n ct dt) = calls s
      \<and> rng_exp_dis s = disconnection_rate p
      \<and> num_connected s = u32 (length fl1 + length fl2)
      \<and> sessions (num_consumers n) (connected_content s) = int (length fl1 + length fl2)
      \<and> ((status (main argc p n ct dt) = Returned 0
           \<and> calls s = setup_calls p n @ floods fl1 @ boundary_calls p n @ floods fl2 @ closing_calls p)
         \<or> ((\<exists>f. status (main argc p n ct dt) = Faulted f)
           \<and> calls s = setup_calls p n @ floods fl1 @ boundary_calls p n @ floods fl2)
         \<or> ((\<exists>f. status (main argc p n ct dt) = Faulted f) \<and> fl2 = []
           \<and> calls s = setup_calls p n @ floods fl1))"
    by blast
  with assms(1) have perf: "performed (main argc p n ct dt)
      = setup_calls p n @ floods fl1 @ boundary_calls p n @ floods fl2 @ closing_calls p"
    by auto
  let ?Q = "enqueue_all (flood_events fl1 @ ?B @ flood_events fl2) []"
  have tr: "tr = run_until ?stop ?Q w0"
    using assms(2) unfolding perf by (rule simulate_returned)
  have bt: "\<forall>x\<in>set ?B. fst x = ?T" by (auto simp: boundary_events_def)
  from queue_split[OF bt, of "flood_events fl1" "flood_events fl2"] obtain pre post where
    Q: "?Q = pre @ ?B @ post"
    and sub: "set pre \<subseteq> set (flood_events fl1) \<union> set (flood_events fl2)"
      "set post \<subseteq> set (flood_events fl1) \<union> set (flood_events fl2)"
    and pre_le: "\<forall>x\<in>set pre. fst x \<le> ?T"
    by blast
  have pre_fl: "\<forall>x\<in>set pre. is_flood (snd x)" and post_fl: "\<forall>x\<in>set post. is_flood (snd x)"
    using sub is_flood_flood_events by blast+
  have w_pre: "apply_events pre w0 = w0" by (rule apply_floods[OF pre_fl])
  let ?w2 = "apply_events ?B w0"
  have after: "(\<forall>k<n. \<forall>h. (k, ?nm, h) \<notin> set (routes ?w2))
      \<and> link_down ?w2 (u32_pred n) (app_to_node n (u32_pred n))"
    by (rule after_boundary)
  show ?thesis
  proof (cases "?T \<le> ?stop")
    case True
    have pre_stop: "\<forall>x\<in>set pre. fst x \<le> ?stop" using pre_le True by auto
    have b_stop: "\<forall>x\<in>set ?B. fst x \<le> ?stop" using bt True by auto
    have parts: "tr = run_until ?stop pre w0 @ run_until ?stop ?B w0 @ run_until ?stop post ?w2"
      unfolding tr Q
      by (simp add: run_until_append[OF pre_stop] run_until_append[OF b_stop] w_pre)
    have order: "\<exists>pre post. fired tr = pre @ ?B @ post \<and> (\<forall>x\<in>set pre. fst x \<le> ?T)"
    proof -
      have "fired tr = fired (run_until ?stop pre w0) @ fired (run_until ?stop ?B w0)
          @ fired (run_until ?stop post ?w2)"
        unfolding parts by (simp add: fired_def)
      then have "fired tr = pre @ ?B @ fired (run_until ?stop post ?w2)"
        by (simp add: fired_run_until_all[OF pre_stop] fired_run_until_all[OF b_stop])
      with pre_le show ?thesis by blast
    qed
    have link: "\<forall>k<n. \<forall>h. (k, ?nm, h) \<notin> set (routes (snd (snd x)))"
      if "x \<in> set tr" "is_link_event (fst (snd x))" for x
    proof -
      from that(1) consider "x \<in> set (run_until ?stop pre w0)"
        | "x \<in> set (run_until ?stop ?B w0)" | "x \<in> set (run_until ?stop post ?w2)"
        unfolding parts by auto
      then show ?thesis
      proof cases
        case 1
        from run_until_fired[OF 1] pre_fl have "is_flood (fst (snd x))" by auto
        with that(2) show ?thesis by (cases "fst (snd x)") auto
      next
        case 2
        from boundary_run[OF 2 that(2)] show ?thesis .
      next
        case 3
        from run_until_fired[OF 3] post_fl have "is_flood (fst (snd x))" by auto
        with that(2) show ?thesis by (cases "fst (snd x)") auto
      qed
    qed
    have later: "snd (snd x) = ?w2" if "x \<in> set tr" "?T < fst x" for x
    proof -
      from that(1) consider "x \<in> set (run_until ?stop pre w0)"
        | "x \<in> set (run_until ?stop ?B w0)" | "x \<in> set (run_until ?stop post ?w2)"
        unfolding parts by auto
      then show ?thesis
      proof cases
        case 1
        from run_until_fired[OF 1] pre_le have "fst x \<le> ?T" by auto
        with that(2) show ?thesis by simp
      next
        case 2
        from run_until_fired[OF 2] bt have "fst x = ?T" by auto
        with that(2) show ?thesis by simp
      next
        case 3
        then show ?thesis by (rule run_until_floods[OF post_fl])
      qed
    qed
    show ?thesis
      using order link later after by (auto simp: forwardable_def)
  next
    case False
    then have neg: "\<not> 0 \<le> observation_period_length p" by simp
    have early: "fst x < ?T" if "x \<in> set tr" for x
      using run_until_time[of x ?stop ?Q w0] that False unfolding tr by simp
    have nolink: "\<not> is_link_event (fst (snd x))" if "x \<in> set tr" for x
    proof -
      from that have "(fst x, fst (snd x)) \<in> set ?Q" unfolding tr by (rule run_until_fired)
      then have "(fst x, fst (snd x)) \<in> set (flood_events fl1) \<union> set ?B \<union> set (flood_events fl2)"
        by (auto simp: set_enqueue_all)
      moreover have "(fst x, fst (snd x)) \<notin> set ?B" using early[OF that] bt by force
      ultimately have "is_flood (fst (snd x))" using is_flood_flood_events by force
      then show ?thesis by (cases "fst (snd x)") auto
    qed
    have "\<forall>x\<in>set tr. is_link_event (fst (snd x)) \<longrightarrow>
            (\<forall>k<n. \<forall>h. (k, ?nm, h) \<notin> set (routes (snd (snd x))))"
      using nolink by blast
    moreover have "\<forall>x\<in>set tr. ?T < fst x \<longrightarrow>
            (\<forall>k<n. \<forall>h. (k, ?nm, h) \<notin> set (routes (snd (snd x)))
                       \<and> \<not> forwardable (snd (snd x)) k h ?nm)
            \<and> link_down (snd (snd x)) (u32_pred n) (app_to_node n (u32_pred n))
            \<and> (\<forall>nm. \<not> forwardable (snd (snd x)) (u32_pred n) (app_to_node n (u32_pred n)) nm)"
    proof (intro ballI impI)
      fix x assume "x \<in> set tr" "?T < fst x"
      with early[of x] have False by simp
      then show "(\<forall>k<n. \<forall>h. (k, ?nm, h) \<notin> set (routes (snd (snd x)))
                       \<and> \<not> forwardable (snd (snd x)) k h ?nm)
            \<and> link_down (snd (snd x)) (u32_pred n) (app_to_node n (u32_pred n))
            \<and> (\<forall>nm. \<not> forwardable (snd (snd x)) (u32_pred n) (app_to_node n (u32_pred n)) nm)" ..
    qed
    ultimately show ?thesis using neg by blast
  qed
qed


section \<open>The example run on the scheduler\<close>

lemma example_performed:
  "performed (main 10 example_params 3 example_tape []) =
     setup_calls example_params 3
     @ map (\<lambda>x. Schedule (fst x) (snd x)) example_events
     @ closing_calls example_params"
  by (simp add: main_unfold example_params_def example_tape_def example_events_def
      upt3 app_to_node_3 prefix_def closing_calls_def)

lemma example_queue: "enqueue_all example_events [] = example_events"
  by (simp add: enqueue_all_def example_events_def)

lemma example_simulate:
  "simulate example_world (performed (main 10 example_params 3 example_tape [])) = Inr example_trace"
  unfolding example_performed simulate_schedules example_queue
  by (simp add: example_events_def example_params_def example_trace_def example_world_def
        example_world_after_def link_down_def)

theorem boundary_before_later_events_witness:
  "status (main 10 example_params 3 example_tape []) = Returned 0
   \<and> simulate example_world (performed (main 10 example_params 3 example_tape []))
       = Inr example_trace
   \<and> fired example_trace = example_events
   \<and> (\<exists>pre post. example_events = pre @ boundary_events example_params 3 @ post
          \<and> list_all (\<lambda>x. fst x \<le> 1) pre)
   \<and> \<not> forwardable example_world_after 2 5 ''ndn:///prefix''
   \<and> link_down example_world_after 2 5"
proof -
  note c = boundary_before_later_events[OF example_status example_simulate]
  have f: "fired example_trace = example_events"
    by (simp add: fired_def example_trace_def example_events_def)
  have "0 \<le> observation_period_length example_params" by (simp add: example_params_def)
  with c obtain pre post where
    "fired example_trace = pre @ boundary_events example_params 3 @ post"
    "\<forall>x\<in>set pre. fst x \<le> initialization_period_length example_params"
    by blast
  then have split: "\<exists>pre post. example_events = pre @ boundary_events example_params 3 @ post
          \<and> list_all (\<lambda>x. fst x \<le> 1) pre"
    unfolding f by (auto simp: list_all_iff example_params_def)
  have last: "(9 / 5, FloodPacketWithSeq 1 9 2, example_world_after) \<in> set example_trace"
    by (simp add: example_trace_def)
  have "initialization_period_length example_params < 9 / 5" by (simp add: example_params_def)
  with c last have "link_down example_world_after (u32_pred 3) (app_to_node 3 (u32_pred 3))
      \<and> (\<forall>nm. \<not> forwardable example_world_after (u32_pred 3) (app_to_node 3 (u32_pred 3)) nm)"
    by fastforce
  moreover have "u32_pred 3 = 2" by (simp add: u32_pred_def u32_def)
  ultimately have "link_down example_world_after 2 5
        \<and> \<not> forwardable example_world_after 2 5 ''ndn:///prefix''"
    by (simp add: app_to_node_3)
  with example_status example_simulate f split show ?thesis by simp
qed

section \<open>Enough draws let \<^verbatim>\<open>main\<close> return\<close>

text \<open>With every gap at least \<open>g > 0\<close>, the initialization loop finishes within the
  tape if the tape is long enough, and it uses no more draws than the period has room
  for.\<close>

lemma init_loop_returns:
  assumes "N \<noteq> 0" "0 < g"
  shows "\<forall>d\<in>set ct. g \<le> c_gap d \<Longrightarrow> ct \<noteq> [] \<Longrightarrow>
         T - connect_time s \<le> g * real (length ct) \<Longrightarrow>
         \<exists>ct' s'. init_loop N T ct s = Inr (ct', s') \<and> set ct' \<subseteq> set ct
            \<and> g * real (length ct) \<le> g * real (length ct') + g + max 0 (T - connect_time s)"
proof (induction ct arbitrary: s)
  case Nil
  then show ?case by simp
next
  case (Cons d ct)
  let ?s' = "init_body N d s"
  have ct': "connect_time ?s' = connect_time s + c_gap d"
    by (simp add: init_body_def Let_def)
  have gd: "g \<le> c_gap d" using Cons.prems(1) by simp
  have len: "g * real (length (d # ct)) = g * real (length ct) + g"
    by (simp add: algebra_simps)
  show ?case
  proof (cases "connect_time ?s' < T")
    case False
    then have "init_loop N T (d # ct) s = Inr (ct, ?s')"
      using assms(1) by (simp add: Let_def)
    moreover have "g * real (length (d # ct)) \<le> g * real (length ct) + g + max 0 (T - connect_time s)"
      unfolding len by simp
    ultimately show ?thesis by auto
  next
    case True
    have room: "T - connect_time ?s' \<le> g * real (length ct)"
      using Cons.prems(3) gd unfolding ct' len by linarith
    have ne: "ct \<noteq> []"
    proof
      assume "ct = []"
      with room True show False by simp
    qed
    have all: "\<forall>d\<in>set ct. g \<le> c_gap d" using Cons.prems(1) by simp
    from Cons.IH[OF all ne room] obtain ct2 s2 where
      r: "init_loop N T ct ?s' = Inr (ct2, s2)" and sub: "set ct2 \<subseteq> set ct"
      and b: "g * real (length ct) \<le> g * real (length ct2) + g + max 0 (T - connect_time ?s')"
      by blast
    have eq: "init_loop N T (d # ct) s = Inr (ct2, s2)"
      using assms(1) True r by (simp add: Let_def)
    have m1: "max 0 (T - connect_time ?s') = T - connect_time s - c_gap d"
      using True unfolding ct' by simp
    have m2: "max 0 (T - connect_time s) = T - connect_time s"
      using True gd assms(2) unfolding ct' by simp
    have "g * real (length (d # ct)) \<le> g * real (length ct2) + g + max 0 (T - connect_time s)"
      using b gd unfolding len m1 m2 by linarith
    with eq sub show ?thesis by auto
  qed
qed

lemma obs_loop_returns:
  assumes "N \<noteq> 0" "0 < g"
  shows "\<forall>d\<in>set ct. g \<le> c_gap d \<Longrightarrow>
         observation_period_length p + initialization_period_length p - connect_time s
           \<le> g * real (length ct) \<Longrightarrow>
         \<exists>r s'. obs_loop N p n ct dt s = Inr (r, s')"
proof (induction ct arbitrary: s)
  case Nil
  then show ?case by simp
next
  case (Cons d ct)
  let ?E = "observation_period_length p + initialization_period_length p"
  show ?case
  proof (cases "connect_time s < ?E")
    case False
    then show ?thesis by simp
  next
    case True
    let ?s' = "(obs_connect N d s)\<lparr>connect_time := connect_time (obs_connect N d s) + c_gap d\<rparr>"
    have gd: "g \<le> c_gap d" using Cons.prems(1) by simp
    have ct': "connect_time ?s' = connect_time s + c_gap d"
      by (simp add: obs_connect_def Let_def)
    have len: "g * real (length (d # ct)) = g * real (length ct) + g"
      by (simp add: algebra_simps)
    have room: "?E - connect_time ?s' \<le> g * real (length ct)"
      using Cons.prems(2) gd unfolding ct' len by linarith
    have all: "\<forall>d\<in>set ct. g \<le> c_gap d" using Cons.prems(1) by simp
    from Cons.IH[OF all room] obtain r s2 where "obs_loop N p n ct dt ?s' = Inr (r, s2)"
      by blast
    then have "obs_loop N p n (d # ct) dt s = Inr (r, s2)"
      using assms(1) True by (simp add: Let_def disconnect_loop_skip)
    then show ?thesis by blast
  qed
qed

text \<open>With at least 10 arguments, at least one consumer application, and every gap at
  least \<open>g > 0\<close>, \<^verbatim>\<open>main\<close> returns 0 once the tape holds one draw more than the two
  periods have room for.\<close>

lemma main_returns:
  assumes "\<not> argc < 10" "num_consumers n \<noteq> 0" "0 < g" "\<forall>d\<in>set ct. g \<le> c_gap d"
    and "g + max 0 (initialization_period_length p - 0.2) + max 0 (observation_period_length p - 0.2)
           \<le> g * real (length ct)"
  shows "status (main argc p n ct dt) = Returned 0"
proof -
  let ?N = "num_consumers n" and ?T = "initialization_period_length p"
  let ?O = "observation_period_length p"
  let ?s0 = "init_driver p n"
  have c0: "connect_time ?s0 = 0.2" by (simp add: init_driver_def)
  have mx: "?T - 0.2 \<le> max 0 (?T - 0.2)" "0 \<le> max 0 (?T - 0.2)"
    "?O - 0.2 \<le> max 0 (?O - 0.2)" "0 \<le> max 0 (?O - 0.2)"
    by simp_all
  have pos: "0 < g * real (length ct)" using assms(3,5) mx by linarith
  have ne: "ct \<noteq> []"
  proof
    assume "ct = []"
    with pos show False by simp
  qed
  have room: "?T - connect_time ?s0 \<le> g * real (length ct)"
    using assms(3,5) mx unfolding c0 by linarith
  from init_loop_returns[OF assms(2,3,4) ne room] obtain ct1 s1 where
    i: "init_loop ?N ?T ct ?s0 = Inr (ct1, s1)" and sub: "set ct1 \<subseteq> set ct"
    and b: "g * real (length ct) \<le> g * real (length ct1) + g + max 0 (?T - connect_time ?s0)"
    by blast
  let ?s4 = "(producer_disconnect p n s1)\<lparr>connect_time := ?T + 0.2, disconnect_time := ?T + 0.2\<rparr>"
  have all1: "\<forall>d\<in>set ct1. g \<le> c_gap d" using sub assms(4) by blast
  have c4: "connect_time ?s4 = ?T + 0.2" by simp
  have room4: "?O + ?T - connect_time ?s4 \<le> g * real (length ct1)"
    using b assms(5) mx unfolding c0 c4 by linarith
  from obs_loop_returns[OF assms(2,3) all1 room4, of n dt] obtain r s5 where
    o: "obs_loop ?N p n ct1 dt ?s4 = Inr (r, s5)"
    by blast
  show ?thesis
    using assms(1) i o by (simp add: main_def Let_def)
qed

section \<open>No event is scheduled at a negative time\<close>

lemma init_loop_times:
  "\<forall>d\<in>set ct. 0 \<le> c_gap d \<Longrightarrow> \<forall>x\<in>set (scheduled (calls s)). lo \<le> fst x \<Longrightarrow>
   lo \<le> connect_time s \<Longrightarrow>
   \<forall>x\<in>set (scheduled (calls (state_of (init_loop N T ct s)))). lo \<le> fst x"
proof (induction ct arbitrary: s)
  case Nil
  then show ?case by simp
next
  case (Cons d ct)
  let ?s' = "init_body N d s"
  have 1: "\<forall>x\<in>set (scheduled (calls ?s')). lo \<le> fst x"
    using Cons.prems(2,3) by (simp add: init_body_def Let_def scheduled_append)
  have 2: "lo \<le> connect_time ?s'"
    using Cons.prems(1,3) by (simp add: init_body_def Let_def)
  have 3: "\<forall>d\<in>set ct. 0 \<le> c_gap d" using Cons.prems(1) by simp
  note IH = Cons.IH[OF 3 1 2]
  show ?case
  proof (cases "N = 0")
    case True
    then show ?thesis using Cons.prems(2) by simp
  next
    case False
    then show ?thesis
      using IH 1 by (cases "connect_time ?s' < T") (simp_all add: Let_def)
  qed
qed

lemma obs_loop_times:
  "\<forall>d\<in>set ct. 0 \<le> c_gap d \<Longrightarrow> \<forall>x\<in>set (scheduled (calls s)). lo \<le> fst x \<Longrightarrow>
   lo \<le> connect_time s \<Longrightarrow>
   \<forall>x\<in>set (scheduled (calls (state_of (obs_loop N p n ct dt s)))). lo \<le> fst x"
proof (induction ct arbitrary: s)
  case Nil
  then show ?case by simp
next
  case (Cons d ct)
  let ?s' = "(obs_connect N d s)\<lparr>connect_time := connect_time (obs_connect N d s) + c_gap d\<rparr>"
  have 1: "\<forall>x\<in>set (scheduled (calls ?s')). lo \<le> fst x"
    using Cons.prems(2,3) by (simp add: obs_connect_def Let_def scheduled_append)
  have 2: "lo \<le> connect_time ?s'"
    using Cons.prems(1,3) by (simp add: obs_connect_def Let_def)
  have 3: "\<forall>d\<in>set ct. 0 \<le> c_gap d" using Cons.prems(1) by simp
  note IH = Cons.IH[OF 3 1 2]
  show ?case
  proof (cases "connect_time s < observation_period_length p + initialization_period_length p
                \<and> N \<noteq> 0")
    case False
    then show ?thesis using Cons.prems(2) by auto
  next
    case True
    then show ?thesis
      using IH by (simp add: Let_def disconnect_loop_skip)
  qed
qed

lemma init_loop_tape: "init_loop N T ct s = Inr (ct', s') \<Longrightarrow> set ct' \<subseteq> set ct"
proof (induction ct arbitrary: s)
  case Nil
  then show ?case by simp
next
  case (Cons d ct)
  then show ?case
    by (cases "N = 0"; cases "connect_time (init_body N d s) < T") (auto simp: Let_def)
qed

lemma main_times:
  assumes "status (main argc p n ct dt) = Returned 0" "\<forall>d\<in>set ct. 0 \<le> c_gap d"
    and "0 \<le> initialization_period_length p"
  shows "\<forall>x\<in>set (scheduled (performed (main argc p n ct dt))). 0 \<le> fst x"
proof -
  let ?N = "num_consumers n" and ?T = "initialization_period_length p"
  let ?s0 = "init_driver p n"
  have na: "\<not> argc < 10" using assms(1) by (auto simp: main_def)
  have t0: "\<forall>x\<in>set (scheduled (calls ?s0)). (0::real) \<le> fst x"
    by (simp add: init_driver_def scheduled_setup)
  have c0: "0 \<le> connect_time ?s0" by (simp add: init_driver_def)
  note i_times = init_loop_times[OF assms(2) t0 c0, of ?N ?T]
  show ?thesis
  proof (cases "init_loop ?N ?T ct ?s0")
    case (Inl fs)
    then have "main argc p n ct dt = halted fs" using na by (simp add: main_def)
    with assms(1) show ?thesis by (simp add: halted_def)
  next
    case (Inr r)
    obtain ct1 s1 where r: "r = (ct1, s1)" by (cases r)
    let ?s4 = "(producer_disconnect p n s1)\<lparr>connect_time := ?T + 0.2, disconnect_time := ?T + 0.2\<rparr>"
    have t1: "\<forall>x\<in>set (scheduled (calls s1)). 0 \<le> fst x"
      using i_times unfolding Inr r by simp
    have t4: "\<forall>x\<in>set (scheduled (calls ?s4)). 0 \<le> fst x"
      using t1 assms(3)
      by (auto simp: producer_disconnect_def scheduled_append scheduled_map_Schedule)
    have c4: "0 \<le> connect_time ?s4" using assms(3) by simp
    have g1: "\<forall>d\<in>set ct1. 0 \<le> c_gap d"
      using init_loop_tape[OF Inr[unfolded r]] assms(2) by blast
    note o_times = obs_loop_times[OF g1 t4 c4, of ?N p n dt]
    show ?thesis
    proof (cases "obs_loop ?N p n ct1 dt ?s4")
      case (Inl fs)
      have "main argc p n ct dt = halted fs"
        using na Inr r Inl by (simp add: main_def Let_def)
      with assms(1) show ?thesis by (simp add: halted_def)
    next
      case Inr2: (Inr r2)
      obtain tp s5 where r2: "r2 = (tp, s5)" by (cases r2)
      have m: "performed (main argc p n ct dt) = calls s5 @ closing_calls p"
        using na Inr r Inr2 r2 by (simp add: main_def Let_def closing_calls_def)
      show ?thesis
        using o_times unfolding Inr2 r2 m
        by (simp add: scheduled_append scheduled_closing)
    qed
  qed
qed

text \<open>A run that returns hands the scheduler no negative time when the draws and the
  period lengths are not negative, so the simulation goes through.\<close>

lemma simulate_succeeds:
  assumes "status (main argc p n ct dt) = Returned 0" "\<forall>d\<in>set ct. 0 \<le> c_gap d"
    and "0 \<le> initialization_period_length p" "0 \<le> observation_period_length p"
  shows "\<exists>tr. simulate w0 (performed (main argc p n ct dt)) = Inr tr"
proof -
  have na: "\<not> argc < 10" using assms(1) by (auto simp: main_def)
  from main_shape[OF na, of p n ct dt] obtain fl1 fl2 s where all:
    "final (main argc p n ct dt) = Some s
      \<and> performed (main argc p n ct dt) = calls s
      \<and> rng_exp_dis s = disconnection_rate p
      \<and> num_connected s = u32 (length fl1 + length fl2)
      \<and> sessions (num_consumers n) (connected_content s) = int (length fl1 + length fl2)
      \<and> ((status (main argc p n ct dt) = Returned 0
           \<and> calls s = setup_calls p n @ floods fl1 @ boundary_calls p n @ floods fl2 @ closing_calls p)
         \<or> ((\<exists>f. status (main argc p n ct dt) = Faulted f)
           \<and> calls s = setup_calls p n @ floods fl1 @ boundary_calls p n @ floods fl2)
         \<or> ((\<exists>f. status (main argc p n ct dt) = Faulted f) \<and> fl2 = []
           \<and> calls s = setup_calls p n @ floods fl1))"
    by blast
  let ?evs = "flood_events fl1 @ boundary_events p n @ flood_events fl2"
  from all assms(1) have perf: "performed (main argc p n ct dt)
      = setup_calls p n @ floods fl1 @ boundary_calls p n @ floods fl2 @ closing_calls p"
    by auto
  have eq: "setup_calls p n @ floods fl1 @ boundary_calls p n @ floods fl2 @ closing_calls p
      = setup_calls p n @ (map (\<lambda>x. Schedule (fst x) (snd x)) ?evs) @ closing_calls p"
    by (simp add: floods_as_schedules boundary_as_schedules)
  have "scheduled (performed (main argc p n ct dt)) = ?evs"
    unfolding perf
    by (simp add: scheduled_append scheduled_setup scheduled_floods scheduled_boundary
          scheduled_closing flood_events_def)
  with main_times[OF assms(1,2,3)] have "\<forall>x\<in>set ?evs. 0 \<le> fst x" by simp
  then show ?thesis
    unfolding perf eq simulate_schedules using assms(3,4) by simp
qed

section \<open>Content-store capacity by role\<close>

lemma stack_install_setup:
  "StackInstall cs attr v ns \<in> set (setup_calls p n) \<longleftrightarrow>
     cs = ''ns3::ndn::cs::Lru'' \<and> attr = ''MaxSize''
     \<and> ((v = to_string (cache_size p) \<and> ns = infrastructure_nodes n)
        \<or> (v = to_string (num_contents p) \<and> ns = consumer_nodes n)
        \<or> (v = to_string (num_contents p) \<and> ns = producer_node n))"
  by (auto simp: setup_calls_def)

lemma stack_install_floods: "StackInstall cs attr v ns \<notin> set (floods fl)"
  by (auto simp: floods_def)

lemma stack_install_boundary: "StackInstall cs attr v ns \<notin> set (boundary_calls p n)"
  by (auto simp: boundary_calls_def)

lemma stack_install_closing: "StackInstall cs attr v ns \<notin> set (closing_calls p)"
  by (simp add: closing_calls_def)

lemma stack_install_main:
  assumes "\<not> argc < 10"
  shows "StackInstall cs attr v ns \<in> set (performed (main argc p n ct dt)) \<longleftrightarrow>
           StackInstall cs attr v ns \<in> set (setup_calls p n)"
proof -
  from main_shape[OF assms, of p n ct dt] obtain fl1 fl2 s where all:
    "final (main argc p n ct dt) = Some s
      \<and> performed (main argc p n ct dt) = calls s
      \<and> rng_exp_dis s = disconnection_rate p
      \<and> num_connected s = u32 (length fl1 + length fl2)
      \<and> sessions (num_consumers n) (connected_content s) = int (length fl1 + length fl2)
      \<and> ((status (main argc p n ct dt) = Returned 0
           \<and> calls s = setup_calls p n @ floods fl1 @ boundary_calls p n @ floods fl2 @ closing_calls p)
         \<or> ((\<exists>f. status (main argc p n ct dt) = Faulted f)
           \<and> calls s = setup_calls p n @ floods fl1 @ boundary_calls p n @ floods fl2)
         \<or> ((\<exists>f. status (main argc p n ct dt) = Faulted f) \<and> fl2 = []
           \<and> calls s = setup_calls p n @ floods fl1))"
    by blast
  then have ps: "performed (main argc p n ct dt) = calls s" by simp
  from all have "calls s = setup_calls p n @ floods fl1 @ boundary_calls p n @ floods fl2 @ closing_calls p
      \<or> calls s = setup_calls p n @ floods fl1 @ boundary_calls p n @ floods fl2
      \<or> calls s = setup_calls p n @ floods fl1"
    by blast
  then show ?thesis
    unfolding ps
    by (auto simp: stack_install_floods stack_install_boundary stack_install_closing)
qed

text \<open>
  C3.  The capacity a node's content store is constructed with depends on the node's
  role.  Every infrastructure node (router) is listed in a stack installation whose
  content store is the least-recently-used store \<^verbatim>\<open>ns3::ndn::cs::Lru\<close> with the attribute
  \<open>MaxSize\<close> set to the configured cache size, and in no installation of any other store
  type, attribute or value.  Every consumer node and the producer node is listed in an
  installation of the same store with \<open>MaxSize\<close> set to the number of contents, and in no
  other.  In a topology of \<open>n\<close> infrastructure nodes the routers are the nodes below
  \<open>n\<close>, the consumers the \<open>n - 1\<close> nodes from \<open>n\<close> on, and the producer the node after
  them.
\<close>

theorem capacity_by_role:
  assumes "\<not> argc < 10"
  shows "(role_of n k = Some Router \<longrightarrow>
            (\<exists>ns. k \<in> set ns
               \<and> StackInstall ''ns3::ndn::cs::Lru'' ''MaxSize'' (to_string (cache_size p)) ns
                    \<in> set (performed (main argc p n ct dt)))
            \<and> (\<forall>cs attr v ns. StackInstall cs attr v ns \<in> set (performed (main argc p n ct dt))
                   \<and> k \<in> set ns \<longrightarrow>
                 cs = ''ns3::ndn::cs::Lru'' \<and> attr = ''MaxSize'' \<and> v = to_string (cache_size p)))
       \<and> (role_of n k = Some Consumer \<or> role_of n k = Some Producer \<longrightarrow>
            (\<exists>ns. k \<in> set ns
               \<and> StackInstall ''ns3::ndn::cs::Lru'' ''MaxSize'' (to_string (num_contents p)) ns
                    \<in> set (performed (main argc p n ct dt)))
            \<and> (\<forall>cs attr v ns. StackInstall cs attr v ns \<in> set (performed (main argc p n ct dt))
                   \<and> k \<in> set ns \<longrightarrow>
                 cs = ''ns3::ndn::cs::Lru'' \<and> attr = ''MaxSize'' \<and> v = to_string (num_contents p)))
       \<and> (0 < n \<and> n \<le> 2147483648 \<longrightarrow>
            role_of n k = (if k < n then Some Router
                           else if k < n + (n - 1) then Some Consumer
                           else if k = n + (n - 1) then Some Producer
                           else None))"
proof -
  note mem = stack_install_main[OF assms, of _ _ _ _ p n ct dt] stack_install_setup
  have r: "(\<exists>ns. k \<in> set ns
               \<and> StackInstall ''ns3::ndn::cs::Lru'' ''MaxSize'' (to_string (cache_size p)) ns
                    \<in> set (performed (main argc p n ct dt)))
            \<and> (\<forall>cs attr v ns. StackInstall cs attr v ns \<in> set (performed (main argc p n ct dt))
                   \<and> k \<in> set ns \<longrightarrow>
                 cs = ''ns3::ndn::cs::Lru'' \<and> attr = ''MaxSize'' \<and> v = to_string (cache_size p))"
    if "role_of n k = Some Router"
  proof -
    from that have in_i: "k \<in> set (infrastructure_nodes n)"
      by (auto simp: role_of_def split: if_splits)
    then have "k < n" by (simp add: infrastructure_nodes_def)
    then have out: "k \<notin> set (consumer_nodes n)" "k \<notin> set (producer_node n)"
      by (auto simp: consumer_nodes_def producer_node_def)
    have "\<exists>ns. k \<in> set ns
               \<and> StackInstall ''ns3::ndn::cs::Lru'' ''MaxSize'' (to_string (cache_size p)) ns
                    \<in> set (performed (main argc p n ct dt))"
      using in_i unfolding mem by (intro exI[of _ "infrastructure_nodes n"]) simp
    moreover have "\<forall>cs attr v ns. StackInstall cs attr v ns \<in> set (performed (main argc p n ct dt))
                   \<and> k \<in> set ns \<longrightarrow>
                 cs = ''ns3::ndn::cs::Lru'' \<and> attr = ''MaxSize'' \<and> v = to_string (cache_size p)"
      using out unfolding mem by auto
    ultimately show ?thesis by blast
  qed
  have l: "(\<exists>ns. k \<in> set ns
               \<and> StackInstall ''ns3::ndn::cs::Lru'' ''MaxSize'' (to_string (num_contents p)) ns
                    \<in> set (performed (main argc p n ct dt)))
            \<and> (\<forall>cs attr v ns. StackInstall cs attr v ns \<in> set (performed (main argc p n ct dt))
                   \<and> k \<in> set ns \<longrightarrow>
                 cs = ''ns3::ndn::cs::Lru'' \<and> attr = ''MaxSize'' \<and> v = to_string (num_contents p))"
    if "role_of n k = Some Consumer \<or> role_of n k = Some Producer"
  proof -
    from that have out: "k \<notin> set (infrastructure_nodes n)"
      and leaf: "k \<in> set (consumer_nodes n) \<or> k \<in> set (producer_node n)"
      by (auto simp: role_of_def split: if_splits)
    have "\<exists>ns. k \<in> set ns
               \<and> StackInstall ''ns3::ndn::cs::Lru'' ''MaxSize'' (to_string (num_contents p)) ns
                    \<in> set (performed (main argc p n ct dt))"
      using leaf unfolding mem by blast
    moreover have "\<forall>cs attr v ns. StackInstall cs attr v ns \<in> set (performed (main argc p n ct dt))
                   \<and> k \<in> set ns \<longrightarrow>
                 cs = ''ns3::ndn::cs::Lru'' \<and> attr = ''MaxSize'' \<and> v = to_string (num_contents p)"
      using out unfolding mem by auto
    ultimately show ?thesis by blast
  qed
  have t: "role_of n k = (if k < n then Some Router
                           else if k < n + (n - 1) then Some Consumer
                           else if k = n + (n - 1) then Some Producer
                           else None)"
    if "0 < n \<and> n \<le> 2147483648"
  proof -
    from that have "u32_pred n = n - 1" by (simp add: u32_pred_pos)
    then show ?thesis
      by (auto simp: role_of_def infrastructure_nodes_def consumer_nodes_def producer_node_def
            num_consumers_def)
  qed
  show ?thesis using r l t by blast
qed

lemma example_nodes:
  "infrastructure_nodes 3 = [0, 1, 2]" "consumer_nodes 3 = [3, 4]" "producer_node 3 = [5]"
proof -
  have two: "num_consumers 3 = 2" by (simp add: num_consumers_def u32_pred_def u32_def)
  have "[3..<5] = [3, 4::nat]" by (simp add: upt_rec)
  then show "consumer_nodes 3 = [3, 4]" by (simp add: consumer_nodes_def two)
  show "infrastructure_nodes 3 = [0, 1, 2]" by (simp add: infrastructure_nodes_def upt3)
  show "producer_node 3 = [5]" by (simp add: producer_node_def two)
qed

theorem capacity_by_role_witness:
  "\<not> (10::int) < 10
   \<and> map (role_of 3) [0, 1, 2, 3, 4, 5, 6]
       = [Some Router, Some Router, Some Router, Some Consumer, Some Consumer, Some Producer, None]
   \<and> StackInstall ''ns3::ndn::cs::Lru'' ''MaxSize'' ''5'' [0, 1, 2]
        \<in> set (performed (main 10 example_params 3 example_tape []))
   \<and> StackInstall ''ns3::ndn::cs::Lru'' ''MaxSize'' ''100'' [3, 4]
        \<in> set (performed (main 10 example_params 3 example_tape []))
   \<and> StackInstall ''ns3::ndn::cs::Lru'' ''MaxSize'' ''100'' [5]
        \<in> set (performed (main 10 example_params 3 example_tape []))
   \<and> StackInstall ''ns3::ndn::cs::Lru'' ''MaxSize'' ''100'' [0, 1, 2]
        \<notin> set (performed (main 10 example_params 3 example_tape []))"
proof -
  have na: "\<not> (10::int) < 10" by simp
  have n: "(0::nat) < 3 \<and> (3::nat) \<le> 2147483648" by simp
  note c = capacity_by_role[OF na, of 3 _ example_params example_tape "[]"]
  have roles: "role_of 3 k = (if k < 3 then Some Router
                           else if k < 3 + (3 - 1) then Some Consumer
                           else if k = 3 + (3 - 1) then Some Producer
                           else None)" for k
    using c[of k] n by blast
  have s: "to_string (cache_size example_params) = ''5''"
    "to_string (num_contents example_params) = ''100''"
    by (simp_all add: example_params_def to_string_def digit_char_def)
  have r2: "role_of 3 2 = Some Router" by (simp add: roles)
  have "role_of 3 2 = Some Router \<longrightarrow>
            (\<exists>ns. 2 \<in> set ns
               \<and> StackInstall ''ns3::ndn::cs::Lru'' ''MaxSize'' (to_string (cache_size example_params)) ns
                    \<in> set (performed (main 10 example_params 3 example_tape [])))
            \<and> (\<forall>cs attr v ns. StackInstall cs attr v ns
                     \<in> set (performed (main 10 example_params 3 example_tape []))
                   \<and> 2 \<in> set ns \<longrightarrow>
                 cs = ''ns3::ndn::cs::Lru'' \<and> attr = ''MaxSize''
                 \<and> v = to_string (cache_size example_params))"
    using c[of 2] by (rule conjunct1)
  from this r2 have "(\<exists>ns. 2 \<in> set ns
               \<and> StackInstall ''ns3::ndn::cs::Lru'' ''MaxSize'' (to_string (cache_size example_params)) ns
                    \<in> set (performed (main 10 example_params 3 example_tape [])))
            \<and> (\<forall>cs attr v ns. StackInstall cs attr v ns
                     \<in> set (performed (main 10 example_params 3 example_tape []))
                   \<and> 2 \<in> set ns \<longrightarrow>
                 cs = ''ns3::ndn::cs::Lru'' \<and> attr = ''MaxSize''
                 \<and> v = to_string (cache_size example_params))"
    by (rule mp)
  then have only2:
    "\<forall>cs attr v ns. StackInstall cs attr v ns
                     \<in> set (performed (main 10 example_params 3 example_tape []))
                   \<and> 2 \<in> set ns \<longrightarrow>
                 cs = ''ns3::ndn::cs::Lru'' \<and> attr = ''MaxSize''
                 \<and> v = to_string (cache_size example_params)"
    by (rule conjunct2)
  have no: "StackInstall ''ns3::ndn::cs::Lru'' ''MaxSize'' ''100'' [0, 1, 2]
        \<notin> set (performed (main 10 example_params 3 example_tape []))"
  proof
    assume in_p: "StackInstall ''ns3::ndn::cs::Lru'' ''MaxSize'' ''100'' [0, 1, 2]
        \<in> set (performed (main 10 example_params 3 example_tape []))"
    have in_l: "(2::nat) \<in> set [0, 1, 2]" by simp
    from only2[rule_format, OF conjI, OF in_p in_l]
    have "''100'' = to_string (cache_size example_params)" by (elim conjE)
    then show False unfolding s by simp
  qed
  have yes: "StackInstall ''ns3::ndn::cs::Lru'' ''MaxSize'' ''5'' [0, 1, 2]
        \<in> set (performed (main 10 example_params 3 example_tape []))"
    "StackInstall ''ns3::ndn::cs::Lru'' ''MaxSize'' ''100'' [3, 4]
        \<in> set (performed (main 10 example_params 3 example_tape []))"
    "StackInstall ''ns3::ndn::cs::Lru'' ''MaxSize'' ''100'' [5]
        \<in> set (performed (main 10 example_params 3 example_tape []))"
    unfolding stack_install_main[OF na] stack_install_setup s example_nodes by simp_all
  show ?thesis
    using yes no by (simp add: roles)
qed

section \<open>Bound and eviction of the content store\<close>

text \<open>
  C5.  A content store constructed with capacity \<open>k\<close> holds, after any sequence of
  \<open>put\<close> and \<open>get\<close>, at most \<open>k\<close> ids, all distinct.  Whenever a \<open>put\<close> of an id the
  store does not hold finds the store at capacity, exactly one id is evicted: it is the
  one whose last \<open>get\<close> or \<open>put\<close> lies furthest back among the ids held, and afterwards
  the store holds the new id together with all the other ids it held before.  In every
  other case a \<open>put\<close> evicts nothing and the store holds the id together with all the ids it
  held before.  After a \<open>put\<close> the id is the most recently used entry.  A \<open>get\<close> hits
  exactly when the id is held, and it changes no membership.
\<close>

theorem lru_bound_and_eviction:
  assumes "new_store k = Inr s0"
  shows "length (entries (cs_run ops s0)) \<le> nat k
       \<and> distinct (entries (cs_run ops s0))
       \<and> (c \<notin> set (entries (cs_run ops s0)) \<and> length (entries (cs_run ops s0)) = nat k \<longrightarrow>
            (\<exists>v. fst (cs_put c (cs_run ops s0)) = Some v
               \<and> v \<in> set (entries (cs_run ops s0))
               \<and> v \<notin> set (entries (snd (cs_put c (cs_run ops s0))))
               \<and> set (entries (snd (cs_put c (cs_run ops s0))))
                   = insert c (set (entries (cs_run ops s0)) - {v})
               \<and> (\<forall>y\<in>set (entries (cs_run ops s0)). y \<noteq> v \<longrightarrow> last_touch v ops < last_touch y ops)))
       \<and> (fst (cs_put c (cs_run ops s0)) \<noteq> None \<longrightarrow>
            c \<notin> set (entries (cs_run ops s0)) \<and> length (entries (cs_run ops s0)) = nat k)
       \<and> (fst (cs_put c (cs_run ops s0)) = None \<longrightarrow>
            set (entries (snd (cs_put c (cs_run ops s0)))) = insert c (set (entries (cs_run ops s0))))
       \<and> hd (entries (snd (cs_put c (cs_run ops s0)))) = c
       \<and> fst (cs_get c (cs_run ops s0)) = (c \<in> set (entries (cs_run ops s0)))
       \<and> set (entries (snd (cs_get c (cs_run ops s0)))) = set (entries (cs_run ops s0))"
proof -
  let ?s = "cs_run ops s0"
  from assms have k: "0 < k" and s0: "s0 = \<lparr>capacity = nat k, entries = []\<rparr>"
    by (auto simp: new_store_def split: if_splits)
  have e0: "entries s0 = []" and c0: "capacity s0 = nat k" "0 < capacity s0"
    using k by (simp_all add: s0)
  have cap: "capacity ?s = nat k" by (simp add: capacity_run c0)
  have len: "length (entries ?s) \<le> nat k"
    using length_run[OF e0 c0(2), of ops] by (simp add: c0)
  have inv: "lru_ordered ops ?s" by (rule lru_ordered_run[OF e0])
  then have d: "distinct (entries ?s)"
    and srt: "sorted_wrt (\<lambda>a b. last_touch b ops < last_touch a ops) (entries ?s)"
    by (auto simp: lru_ordered_def)
  have evict: "\<exists>v. fst (cs_put c ?s) = Some v \<and> v \<in> set (entries ?s)
               \<and> v \<notin> set (entries (snd (cs_put c ?s)))
               \<and> set (entries (snd (cs_put c ?s))) = insert c (set (entries ?s) - {v})
               \<and> (\<forall>y\<in>set (entries ?s). y \<noteq> v \<longrightarrow> last_touch v ops < last_touch y ops)"
    if "c \<notin> set (entries ?s) \<and> length (entries ?s) = nat k"
  proof -
    from that k have ne: "entries ?s \<noteq> []" and new: "c \<notin> set (entries ?s)"
      and full: "capacity ?s \<le> length (entries ?s)"
      by (auto simp: cap)
    let ?v = "last (entries ?s)"
    have split: "entries ?s = butlast (entries ?s) @ [?v]" using ne by simp
    have put: "cs_put c ?s = (Some ?v, ?s\<lparr>entries := c # butlast (entries ?s)\<rparr>)"
      using ne new full by (simp add: cs_put_def)
    have mem: "?v \<in> set (entries ?s)" using ne by simp
    have "distinct (butlast (entries ?s) @ [?v])" using d split by simp
    then have nb: "?v \<notin> set (butlast (entries ?s))" by simp
    have "set (entries ?s) = set (butlast (entries ?s) @ [?v])" using split by simp
    then have parts: "set (entries ?s) = insert ?v (set (butlast (entries ?s)))" by simp
    have rest: "set (butlast (entries ?s)) = set (entries ?s) - {?v}"
      using parts nb by auto
    have "sorted_wrt (\<lambda>a b. last_touch b ops < last_touch a ops) (butlast (entries ?s) @ [?v])"
      using srt split by simp
    then have lt: "\<forall>y\<in>set (butlast (entries ?s)). last_touch ?v ops < last_touch y ops"
      by (simp add: sorted_wrt_append)
    have older: "\<forall>y\<in>set (entries ?s). y \<noteq> ?v \<longrightarrow> last_touch ?v ops < last_touch y ops"
      using lt unfolding parts by simp
    have after: "set (entries (snd (cs_put c ?s))) = insert c (set (entries ?s) - {?v})"
      unfolding put by (simp add: rest)
    have gone: "?v \<notin> set (entries (snd (cs_put c ?s)))"
      unfolding after using new mem by auto
    from put have "fst (cs_put c ?s) = Some ?v" by simp
    with mem gone after older show ?thesis by blast
  qed
  have only: "c \<notin> set (entries ?s) \<and> length (entries ?s) = nat k"
    if "fst (cs_put c ?s) \<noteq> None"
    using that len by (auto simp: cs_put_def cap split: if_splits)
  have keep: "set (entries (snd (cs_put c ?s))) = insert c (set (entries ?s))"
    if "fst (cs_put c ?s) = None"
    using that by (auto simp: cs_put_def split: if_splits)
  have front: "hd (entries (snd (cs_put c ?s))) = c"
    by (simp add: cs_put_def)
  have hit: "fst (cs_get c ?s) = (c \<in> set (entries ?s))"
    by (simp add: cs_get_def)
  have same: "set (entries (snd (cs_get c ?s))) = set (entries ?s)"
    by (auto simp: cs_get_def)
  show ?thesis using len d evict only keep front hit same by blast
qed

theorem lru_bound_and_eviction_witness:
  "new_store 2 = Inr example_store
   \<and> entries (cs_run [Put 5, Put 6, Get 5] example_store) = [5, 6]
   \<and> fst (cs_put 7 (cs_run [Put 5, Put 6, Get 5] example_store)) = Some 6
   \<and> entries (snd (cs_put 7 (cs_run [Put 5, Put 6, Get 5] example_store))) = [7, 5]
   \<and> last_touch 6 [Put 5, Put 6, Get 5] = 2 \<and> last_touch 5 [Put 5, Put 6, Get 5] = 3"
proof -
  have h: "new_store 2 = Inr example_store"
    by (simp add: new_store_def example_store_def)
  have run: "entries (cs_run [Put 5, Put 6, Get 5] example_store) = [5, 6]"
    by (simp add: cs_run_def cs_put_def cs_get_def example_store_def)
  have "(7::nat) \<notin> set (entries (cs_run [Put 5, Put 6, Get 5] example_store))
      \<and> length (entries (cs_run [Put 5, Put 6, Get 5] example_store)) = nat 2"
    by (simp add: run)
  with lru_bound_and_eviction[OF h, of "[Put 5, Put 6, Get 5]" 7]
  obtain v where v: "fst (cs_put 7 (cs_run [Put 5, Put 6, Get 5] example_store)) = Some v"
    "v \<in> set (entries (cs_run [Put 5, Put 6, Get 5] example_store))"
    "\<forall>y\<in>set (entries (cs_run [Put 5, Put 6, Get 5] example_store)). y \<noteq> v \<longrightarrow>
       last_touch v [Put 5, Put 6, Get 5] < last_touch y [Put 5, Put 6, Get 5]"
    by blast
  have t: "last_touch 6 [Put 5, Put 6, Get 5] = 2" "last_touch 5 [Put 5, Put 6, Get 5] = 3"
    by (simp_all add: last_touch_def)
  have "v = 6"
  proof (rule ccontr)
    assume "v \<noteq> 6"
    with v(2) have "v = 5" by (simp add: run)
    with v(3) have "last_touch 5 [Put 5, Put 6, Get 5] < last_touch 6 [Put 5, Put 6, Get 5]"
      by (simp add: run)
    then show False by (simp add: t)
  qed
  with v(1) have ev: "fst (cs_put 7 (cs_run [Put 5, Put 6, Get 5] example_store)) = Some 6"
    by simp
  have after: "entries (snd (cs_put 7 (cs_run [Put 5, Put 6, Get 5] example_store))) = [7, 5]"
    by (simp add: cs_run_def cs_put_def cs_get_def example_store_def)
  show ?thesis using h run ev after t by simp
qed

section \<open>The hop budget\<close>

lemma known_setup: "x \<in> set (setup_calls p n) \<Longrightarrow> known_call p x"
  unfolding setup_calls_def by (auto simp: known_call_def prefix_def)

lemma known_floods: "x \<in> set (floods fl) \<Longrightarrow> known_call p x"
  by (auto simp: floods_def known_call_def)

lemma known_boundary: "x \<in> set (boundary_calls p n) \<Longrightarrow> known_call p x"
  by (auto simp: boundary_calls_def known_call_def prefix_def)

lemma known_closing: "x \<in> set (closing_calls p) \<Longrightarrow> known_call p x"
  by (auto simp: closing_calls_def known_call_def)

lemma known_main: "x \<in> set (performed (main argc p n ct dt)) \<Longrightarrow> known_call p x"
proof (cases "argc < 10")
  case True
  assume "x \<in> set (performed (main argc p n ct dt))"
  with True show ?thesis by (simp add: main_def)
next
  case False
  assume x: "x \<in> set (performed (main argc p n ct dt))"
  from main_shape[OF False, of p n ct dt] obtain fl1 fl2 s where all:
    "final (main argc p n ct dt) = Some s
      \<and> performed (main argc p n ct dt) = calls s
      \<and> rng_exp_dis s = disconnection_rate p
      \<and> num_connected s = u32 (length fl1 + length fl2)
      \<and> sessions (num_consumers n) (connected_content s) = int (length fl1 + length fl2)
      \<and> ((status (main argc p n ct dt) = Returned 0
           \<and> calls s = setup_calls p n @ floods fl1 @ boundary_calls p n @ floods fl2 @ closing_calls p)
         \<or> ((\<exists>f. status (main argc p n ct dt) = Faulted f)
           \<and> calls s = setup_calls p n @ floods fl1 @ boundary_calls p n @ floods fl2)
         \<or> ((\<exists>f. status (main argc p n ct dt) = Faulted f) \<and> fl2 = []
           \<and> calls s = setup_calls p n @ floods fl1))"
    by blast
  then have ps: "performed (main argc p n ct dt) = calls s" by simp
  from all have "calls s = setup_calls p n @ floods fl1 @ boundary_calls p n @ floods fl2 @ closing_calls p
      \<or> calls s = setup_calls p n @ floods fl1 @ boundary_calls p n @ floods fl2
      \<or> calls s = setup_calls p n @ floods fl1"
    by blast
  with x have "x \<in> set (setup_calls p n) \<or> x \<in> set (floods fl1) \<or> x \<in> set (boundary_calls p n)
      \<or> x \<in> set (floods fl2) \<or> x \<in> set (closing_calls p)"
    unfolding ps by auto
  then show ?thesis
    using known_setup known_floods known_boundary known_closing by blast
qed


text \<open>
  C7.  Every flood the driver schedules carries the hop budget 2.  The connect step of
  the initialization phase and the connect step of the observation phase each add one
  call to the schedule: the callback \<open>FloodPacketWithSeq\<close> at the current connect time,
  with the consumer application, the content and the budget 2.  This budget is the only
  bound the scenario puts on a flood: every call the program makes is one of the calls
  listed below with their literal arguments.  The only configuration defaults are the
  data rate, the delay and the queue length of the point-to-point links; the only
  attribute of a content store is its size; the consumer application is installed with
  its prefix and no attribute, the producer with its payload size; and a scheduled event
  is a flood with budget 2, a route removal or a link failure.
\<close>

theorem floods_hop_budget:
  "(\<forall>t a c h. Schedule t (FloodPacketWithSeq a c h) \<in> set (performed (main argc p n ct dt))
       \<longrightarrow> h = 2)
   \<and> calls (init_body N d s)
       = calls s @ [Schedule (connect_time s)
                     (FloodPacketWithSeq (u32 (c_gen d mod N)) (u32 (c_seq d)) 2)]
   \<and> calls (obs_connect N d s)
       = calls s @ [Schedule (connect_time s)
                     (FloodPacketWithSeq (u32 (c_gen d mod N)) (u32 (c_seq d)) 2)]
   \<and> (\<forall>x. x \<in> set (performed (main argc p n ct dt)) \<longrightarrow>
     (x = ConfigSetDefault ''ns3::PointToPointNetDevice::DataRate'' ''1Mbps''
      \<or> x = ConfigSetDefault ''ns3::PointToPointChannel::Delay'' ''2ms''
      \<or> x = ConfigSetDefault ''ns3::DropTailQueue::MaxPackets'' ''20''
      \<or> x = CmdParse
      \<or> x = TopologyRead ''src/ndnSIM/examples/topologies/topo-grid-3x3-producer-attached.txt''
      \<or> (\<exists>k. x = NodesCreate k)
      \<or> (\<exists>a b. x = P2PInstall a b)
      \<or> (\<exists>v ns. x = StackInstall ''ns3::ndn::cs::Lru'' ''MaxSize'' v ns)
      \<or> x = StrategyInstallAll ''/'' ''/localhost/nfd/strategy/best-route''
      \<or> x = GlobalRoutingInstallAll
      \<or> (\<exists>k. x = AppInstall ''ns3::ndn::ConsumerSit'' ''/prefix'' [] k)
      \<or> (\<exists>k. x = AppInstall ''ns3::ndn::Producer'' ''/prefix'' [(''PayloadSize'', ''1024'')] k)
      \<or> (\<exists>k. x = AddOrigins ''/prefix'' k)
      \<or> x = CalculateRoutes
      \<or> (\<exists>t a c. x = Schedule t (FloodPacketWithSeq a c 2))
      \<or> (\<exists>k. x = Schedule (initialization_period_length p) (RemoveRoute k ''ndn:///prefix''))
      \<or> (\<exists>a b. x = Schedule (initialization_period_length p) (FailLink a b))
      \<or> x = Stop (observation_period_length p + initialization_period_length p)
      \<or> x = Run
      \<or> x = Destroy))"
proof (intro conjI)
  show "\<forall>t a c h. Schedule t (FloodPacketWithSeq a c h) \<in> set (performed (main argc p n ct dt))
       \<longrightarrow> h = 2"
  proof (intro allI impI)
    fix t a c h
    assume sch: "Schedule t (FloodPacketWithSeq a c h) \<in> set (performed (main argc p n ct dt))"
    show "h = 2"
    proof (cases "argc < 10")
      case True
      with sch show ?thesis by (simp add: main_def)
    next
      case False
      from sch have mem:
        "(t, FloodPacketWithSeq a c h) \<in> set (scheduled (performed (main argc p n ct dt)))"
        by (simp add: scheduled_set)
      from main_scheduled[OF False, of p n ct dt] obtain fl1 fl2 where
        "scheduled (performed (main argc p n ct dt))
           = flood_events fl1 @ boundary_events p n @ flood_events fl2
         \<or> scheduled (performed (main argc p n ct dt)) = flood_events fl1"
        by blast
      with mem show ?thesis
        by (auto simp: flood_events_def boundary_events_def)
    qed
  qed
next
  show "calls (init_body N d s)
       = calls s @ [Schedule (connect_time s)
                     (FloodPacketWithSeq (u32 (c_gen d mod N)) (u32 (c_seq d)) 2)]"
    by (simp add: init_body_def Let_def)
next
  show "calls (obs_connect N d s)
       = calls s @ [Schedule (connect_time s)
                     (FloodPacketWithSeq (u32 (c_gen d mod N)) (u32 (c_seq d)) 2)]"
    by (simp add: obs_connect_def Let_def)
next
  have "\<forall>x. x \<in> set (performed (main argc p n ct dt)) \<longrightarrow> known_call p x"
    using known_main by blast
  then show "\<forall>x. x \<in> set (performed (main argc p n ct dt)) \<longrightarrow>
     (x = ConfigSetDefault ''ns3::PointToPointNetDevice::DataRate'' ''1Mbps''
      \<or> x = ConfigSetDefault ''ns3::PointToPointChannel::Delay'' ''2ms''
      \<or> x = ConfigSetDefault ''ns3::DropTailQueue::MaxPackets'' ''20''
      \<or> x = CmdParse
      \<or> x = TopologyRead ''src/ndnSIM/examples/topologies/topo-grid-3x3-producer-attached.txt''
      \<or> (\<exists>k. x = NodesCreate k)
      \<or> (\<exists>a b. x = P2PInstall a b)
      \<or> (\<exists>v ns. x = StackInstall ''ns3::ndn::cs::Lru'' ''MaxSize'' v ns)
      \<or> x = StrategyInstallAll ''/'' ''/localhost/nfd/strategy/best-route''
      \<or> x = GlobalRoutingInstallAll
      \<or> (\<exists>k. x = AppInstall ''ns3::ndn::ConsumerSit'' ''/prefix'' [] k)
      \<or> (\<exists>k. x = AppInstall ''ns3::ndn::Producer'' ''/prefix'' [(''PayloadSize'', ''1024'')] k)
      \<or> (\<exists>k. x = AddOrigins ''/prefix'' k)
      \<or> x = CalculateRoutes
      \<or> (\<exists>t a c. x = Schedule t (FloodPacketWithSeq a c 2))
      \<or> (\<exists>k. x = Schedule (initialization_period_length p) (RemoveRoute k ''ndn:///prefix''))
      \<or> (\<exists>a b. x = Schedule (initialization_period_length p) (FailLink a b))
      \<or> x = Stop (observation_period_length p + initialization_period_length p)
      \<or> x = Run
      \<or> x = Destroy)"
    unfolding known_call_def .
qed

text \<open>An initialization flood, an observation flood and the installation of a consumer
  application in the example run.\<close>

theorem floods_hop_budget_witness:
  "Schedule (1 / 5) (FloodPacketWithSeq 1 3 2) \<in> set (performed (main 10 example_params 3 example_tape []))
   \<and> Schedule (6 / 5) (FloodPacketWithSeq 0 3 2) \<in> set (performed (main 10 example_params 3 example_tape []))
   \<and> AppInstall ''ns3::ndn::ConsumerSit'' ''/prefix'' [] 3
        \<in> set (performed (main 10 example_params 3 example_tape []))
   \<and> ConfigSetDefault ''ns3::ndn::Consumer::HopLimit'' ''2''
        \<notin> set (performed (main 10 example_params 3 example_tape []))"
proof -
  have m: "Schedule (1 / 5) (FloodPacketWithSeq 1 3 2)
        \<in> set (performed (main 10 example_params 3 example_tape []))"
    "Schedule (6 / 5) (FloodPacketWithSeq 0 3 2)
        \<in> set (performed (main 10 example_params 3 example_tape []))"
    by (simp_all add: scheduled_set[symmetric] example_scheduled)
  note c = floods_hop_budget[of 10 example_params 3 example_tape "[]"]
  have shape: "\<forall>x. x \<in> set (performed (main 10 example_params 3 example_tape []))
      \<longrightarrow> known_call example_params x"
    unfolding known_call_def
    using c[THEN conjunct2, THEN conjunct2, THEN conjunct2] .
  have "\<not> known_call example_params (ConfigSetDefault ''ns3::ndn::Consumer::HopLimit'' ''2'')"
    by (simp add: known_call_def)
  with shape have no: "ConfigSetDefault ''ns3::ndn::Consumer::HopLimit'' ''2''
        \<notin> set (performed (main 10 example_params 3 example_tape []))"
    by blast
  have two: "num_consumers 3 = 2" by (simp add: num_consumers_def u32_pred_def u32_def)
  have "[3..<5] = [3, 4::nat]" by (simp add: upt_rec)
  then have "consumer_nodes 3 = [3, 4]" by (simp add: consumer_nodes_def two)
  then have "AppInstall ''ns3::ndn::ConsumerSit'' prefix [] 3 \<in> set (setup_calls example_params 3)"
    by (simp add: setup_calls_def)
  moreover from main_setup[of 10 example_params 3 example_tape "[]"] obtain rest where
    "performed (main 10 example_params 3 example_tape []) = setup_calls example_params 3 @ rest"
    by auto
  ultimately have "AppInstall ''ns3::ndn::ConsumerSit'' prefix [] 3
        \<in> set (performed (main 10 example_params 3 example_tape []))"
    by simp
  then have app: "AppInstall ''ns3::ndn::ConsumerSit'' ''/prefix'' [] 3
        \<in> set (performed (main 10 example_params 3 example_tape []))"
    by (simp add: prefix_def)
  show ?thesis using m app no by simp
qed

end
